theory Spec2Isabelle
  imports Complex_Main
begin

section \<open>JavaScript values\<close>

text \<open>
  The middleware of \<^verbatim>\<open>backend/middleware/validation.js\<close> and
  \<^verbatim>\<open>backend/middleware/auth.js\<close> inspects values that come out of
  \<^verbatim>\<open>JSON.parse\<close>, out of the query-string parser and out of the header
  map. A number is an IEEE double; the checks of the source only look at whether it is
  NaN, infinite, or a finite value with or without a fractional part, so a finite
  double is kept as the rational number it denotes.
\<close>

datatype jsnum = NaN | PosInf | NegInf | Fin rat

datatype jsval =
    JUndefined
  | JNull
  | JBool bool
  | JNum jsnum
  | JStr string
  | JArr "jsval list"
  | JObj "(string \<times> jsval) list"
  | JFunction

text \<open>\<^verbatim>\<open>typeof v\<close>.\<close>

fun typeof :: "jsval \<Rightarrow> string" where
  "typeof JUndefined = ''undefined''"
| "typeof JNull = ''object''"
| "typeof (JBool b) = ''boolean''"
| "typeof (JNum n) = ''number''"
| "typeof (JStr s) = ''string''"
| "typeof (JArr xs) = ''object''"
| "typeof (JObj fs) = ''object''"
| "typeof JFunction = ''function''"

text \<open>\<^verbatim>\<open>Array.isArray(v)\<close>, \<^verbatim>\<open>isNaN(v)\<close> on a number, and
  \<^verbatim>\<open>Number.isInteger(v)\<close>: a number that is finite and equal to its floor.\<close>

fun Array_isArray :: "jsval \<Rightarrow> bool" where
  "Array_isArray (JArr xs) = True"
| "Array_isArray v = False"

fun isNaN :: "jsval \<Rightarrow> bool" where
  "isNaN (JNum NaN) = True"
| "isNaN v = False"

fun Number_isInteger :: "jsval \<Rightarrow> bool" where
  "Number_isInteger (JNum (Fin q)) = (of_int \<lfloor>q\<rfloor> = q)"
| "Number_isInteger v = False"

text \<open>
  An object that comes out of \<^verbatim>\<open>JSON.parse\<close> is \<open>JObj\<close> with its own
  properties in order; \<open>JFunction\<close> is a function value. Every such object inherits
  from \<^verbatim>\<open>Object.prototype\<close>, whose properties are the functions named below and
  the accessor \<^verbatim>\<open>__proto__\<close>.
\<close>

abbreviation Object_prototype_functions :: "string list" where
  "Object_prototype_functions \<equiv>
     [''constructor'', ''hasOwnProperty'', ''isPrototypeOf'', ''propertyIsEnumerable'',
      ''toLocaleString'', ''toString'', ''valueOf'', ''__defineGetter__'',
      ''__defineSetter__'', ''__lookupGetter__'', ''__lookupSetter__'']"

text \<open>
  Property lookup \<^verbatim>\<open>obj[name]\<close>: the object's own property when it has one;
  otherwise what it inherits, which is a function for the names above and
  \<^verbatim>\<open>Object.prototype\<close> itself for \<^verbatim>\<open>__proto__\<close>; otherwise
  \<^verbatim>\<open>undefined\<close>. \<^verbatim>\<open>Object.prototype\<close> is written \<open>JObj []\<close>: it is an
  object that is neither \<^verbatim>\<open>null\<close> nor an array, and \<^verbatim>\<open>in\<close> finds in it
  what it finds in an object without own properties.
\<close>

definition get_prop :: "(string \<times> jsval) list \<Rightarrow> string \<Rightarrow> jsval" where
  "get_prop obj name =
     (case map_of obj name of
        Some v \<Rightarrow> v
      | None \<Rightarrow>
          if name = ''__proto__'' then JObj []
          else if name \<in> set Object_prototype_functions then JFunction
          else JUndefined)"

text \<open>\<^verbatim>\<open>name in obj\<close>: an own or an inherited property.\<close>

definition has_property :: "(string \<times> jsval) list \<Rightarrow> string \<Rightarrow> bool" where
  "has_property obj name =
     (name \<in> set (map fst obj) \<or> name = ''__proto__'' \<or> name \<in> set Object_prototype_functions)"

subsection \<open>Strings\<close>

text \<open>
  A string of the model is a sequence of UTF-16 code units below 256, and its length is
  their number, as \<^verbatim>\<open>s.length\<close> counts.
  \<^verbatim>\<open>String.prototype.trim\<close> removes white space and line terminators from both
  ends. Among the code units below 256 these are TAB, LF, VT, FF, CR, SPACE and the
  no-break space; \<^verbatim>\<open>\s\<close> in a regular expression stands for the same set.
\<close>

definition js_whitespace :: "char \<Rightarrow> bool" where
  "js_whitespace c = (of_char c \<in> set [9, 10, 11, 12, 13, 32, 160 :: nat])"

definition trim :: "string \<Rightarrow> string" where
  "trim s = rev (dropWhile js_whitespace (rev (dropWhile js_whitespace s)))"

text \<open>\<^verbatim>\<open>s.replace(pat, rep)\<close> with a string pattern: the first occurrence of
  \<^verbatim>\<open>pat\<close> in \<^verbatim>\<open>s\<close>, wherever it stands, is replaced; a string without
  an occurrence is returned as it is.\<close>

fun replace :: "string \<Rightarrow> string \<Rightarrow> string \<Rightarrow> string" where
  "replace pat rep [] = (if pat = [] then rep else [])"
| "replace pat rep (c # cs) =
     (if take (length pat) (c # cs) = pat then rep @ drop (length pat) (c # cs)
      else c # replace pat rep cs)"

text \<open>The decimal digits a template literal such as \<^verbatim>\<open>${maxRequests}\<close> puts
  for an integer.\<close>

definition digit :: "nat \<Rightarrow> char" where
  "digit d = ''0123456789'' ! d"

fun decimal :: "nat \<Rightarrow> string" where
  "decimal n = (if n div 10 = 0 then [digit n] else decimal (n div 10) @ [digit (n mod 10)])"

declare decimal.simps [simp del]

definition decimal_int :: "int \<Rightarrow> string" where
  "decimal_int i = (if 0 \<le> i then decimal (nat i) else CHR ''-'' # decimal (nat (- i)))"

section \<open>Schema validation (validation.js)\<close>

subsection \<open>validateType\<close>

fun validateType :: "jsval \<Rightarrow> string \<Rightarrow> bool" where
  "validateType v expectedType =
     (if expectedType = ''string'' then typeof v = ''string''
      else if expectedType = ''number'' then typeof v = ''number'' \<and> \<not> isNaN v
      else if expectedType = ''boolean'' then typeof v = ''boolean''
      else if expectedType = ''array'' then Array_isArray v
      else if expectedType = ''object'' then typeof v = ''object'' \<and> v \<noteq> JNull \<and> \<not> Array_isArray v
      else if expectedType = ''integer'' then Number_isInteger v
      else if expectedType = ''float'' then typeof v = ''number'' \<and> \<not> isNaN v
      else True)"

subsection \<open>Schemas, errors and the platform\<close>

text \<open>
  A field schema is the object a route writes for one field, such as
  \<^verbatim>\<open>{ type: 'string', required: true, minLength: 1 }\<close>. A property the object
  does not have is \<open>None\<close>. A schema is the list of its entries in the order of
  \<^verbatim>\<open>Object.entries\<close>.
\<close>

record field_schema =
  type :: "string option"
  required :: bool
  minLength :: "nat option"
  maxLength :: "nat option"
  pattern :: "string option"
  format :: "string option"
  minItems :: "nat option"
  maxItems :: "nat option"
  requiredFields :: "string list option"

type_synonym schema = "(string \<times> field_schema) list"

text \<open>An entry of the \<^verbatim>\<open>errors\<close> array: \<^verbatim>\<open>field\<close>, \<^verbatim>\<open>message\<close> and
  \<^verbatim>\<open>code\<close>, and in \<open>extra\<close> the further properties some checks add
  (\<^verbatim>\<open>expected\<close>, \<^verbatim>\<open>actual\<close>, \<^verbatim>\<open>minLength\<close>, ...).\<close>

record validation_error =
  field :: string
  message :: string
  code :: string
  extra :: "(string \<times> jsval) list"

text \<open>
  Two builtins of the JavaScript platform are used by the validator and are parameters
  of the model: \<^verbatim>\<open>new RegExp(p)\<close>, which throws a SyntaxError on a malformed
  pattern (\<open>None\<close>) and otherwise gives an object whose \<^verbatim>\<open>test\<close> decides a
  string, and \<^verbatim>\<open>new URL(s)\<close>, which throws exactly when \<^verbatim>\<open>s\<close> does not
  parse as an absolute URL.
\<close>

record platform =
  RegExp :: "string \<Rightarrow> (string \<Rightarrow> bool) option"
  URL_parses :: "string \<Rightarrow> bool"

datatype exn = SyntaxError

text \<open>Truthiness of an optional numeric or string property, as in
  \<^verbatim>\<open>fieldSchema.minLength && ...\<close>: absent, \<^verbatim>\<open>0\<close> and \<^verbatim>\<open>''\<close> are
  falsy.\<close>

fun truthy_nat :: "nat option \<Rightarrow> bool" where
  "truthy_nat None = False"
| "truthy_nat (Some n) = (n \<noteq> 0)"

fun truthy_str :: "string option \<Rightarrow> bool" where
  "truthy_str None = False"
| "truthy_str (Some s) = (s \<noteq> [])"

definition num_of_nat :: "nat \<Rightarrow> jsval" where
  "num_of_nat n = JNum (Fin (of_nat n))"

subsection \<open>isValidUrl and isValidEmail\<close>

definition isValidUrl :: "platform \<Rightarrow> string \<Rightarrow> bool" where
  "isValidUrl pf s = URL_parses pf s"

text \<open>
  \<^verbatim>\<open>/^[^\s@]+@[^\s@]+\.[^\s@]+$/\<close>: a non-empty run of characters that are
  neither white space nor \<^verbatim>\<open>@\<close>, then \<^verbatim>\<open>@\<close>, then to the end of the string
  such characters only, with a dot among them that is neither the first nor the last.
\<close>

definition email_char :: "char \<Rightarrow> bool" where
  "email_char c = (\<not> js_whitespace c \<and> c \<noteq> CHR ''@'')"

definition isValidEmail :: "string \<Rightarrow> bool" where
  "isValidEmail email =
     (takeWhile email_char email \<noteq> [] \<and>
      (case dropWhile email_char email of
         [] \<Rightarrow> False
       | c # domain \<Rightarrow>
           c = CHR ''@'' \<and> list_all email_char domain \<and> CHR ''.'' \<in> set (butlast (tl domain))))"

subsection \<open>Requests and responses\<close>

text \<open>
  What the middleware reads of an Express request: the header map (lower-cased names,
  string values), the parsed query, the parsed JSON body (an object), the peer address,
  and the \<^verbatim>\<open>auth\<close> property the authenticator may add. A rejection is the JSON
  body sent with its HTTP status; \<open>res_message\<close> is its \<^verbatim>\<open>message\<close> property.
  Log output is not part of the model.
\<close>

record auth_info =
  apiKey :: "string option"
  authenticated :: bool
  timestamp :: int

record request =
  headers :: "(string \<times> string) list"
  query :: "(string \<times> jsval) list"
  body :: "(string \<times> jsval) list"
  ip :: string
  auth :: "auth_info option"

record response =
  status :: nat
  success :: bool
  error :: string
  res_message :: string
  details :: "validation_error list option"
  retryAfter :: "int option"

text \<open>A middleware either calls \<^verbatim>\<open>next()\<close>, handing on the request as it left
  it, or sends a response and ends the request.\<close>

datatype outcome = Next request | Respond response

subsection \<open>validateRequest\<close>

text \<open>The string checks, inside
  \<^verbatim>\<open>if (fieldSchema.type === 'string' && typeof value === 'string')\<close>. The
  pattern check constructs the regular expression and can throw.\<close>

definition string_checks ::
  "platform \<Rightarrow> string \<Rightarrow> field_schema \<Rightarrow> string \<Rightarrow> exn + validation_error list" where
  "string_checks pf fieldName fieldSchema s =
     (let e_min =
        (case minLength fieldSchema of
           Some n \<Rightarrow>
             if n \<noteq> 0 \<and> length s < n then
               [\<lparr>field = fieldName,
                 message = fieldName @ '' must be at least '' @ decimal n @ '' characters long'',
                 code = ''MIN_LENGTH'',
                 extra = [(''minLength'', num_of_nat n), (''actualLength'', num_of_nat (length s))]\<rparr>]
             else []
         | None \<Rightarrow> []);
       e_max =
        (case maxLength fieldSchema of
           Some n \<Rightarrow>
             if n \<noteq> 0 \<and> length s > n then
               [\<lparr>field = fieldName,
                 message = fieldName @ '' must be no more than '' @ decimal n @ '' characters long'',
                 code = ''MAX_LENGTH'',
                 extra = [(''maxLength'', num_of_nat n), (''actualLength'', num_of_nat (length s))]\<rparr>]
             else []
         | None \<Rightarrow> []);
       e_url =
        (if format fieldSchema = Some ''url'' \<and> \<not> isValidUrl pf s then
           [\<lparr>field = fieldName, message = fieldName @ '' must be a valid URL'',
             code = ''INVALID_URL'', extra = []\<rparr>]
         else []);
       e_email =
        (if format fieldSchema = Some ''email'' \<and> \<not> isValidEmail s then
           [\<lparr>field = fieldName, message = fieldName @ '' must be a valid email address'',
             code = ''INVALID_EMAIL'', extra = []\<rparr>]
         else []);
       e_pattern =
        (case pattern fieldSchema of
           None \<Rightarrow> Inr []
         | Some p \<Rightarrow>
             if p = [] then Inr []
             else
               (case RegExp pf p of
                  None \<Rightarrow> Inl SyntaxError
                | Some test \<Rightarrow>
                    Inr (if \<not> test s then
                           [\<lparr>field = fieldName, message = fieldName @ '' format is invalid'',
                             code = ''INVALID_PATTERN'', extra = [(''pattern'', JStr p)]\<rparr>]
                         else [])))
      in
        (case e_pattern of
           Inl e \<Rightarrow> Inl e
         | Inr e_pat \<Rightarrow> Inr (e_min @ e_max @ e_pat @ e_url @ e_email)))"

text \<open>The array checks, inside
  \<^verbatim>\<open>if (fieldSchema.type === 'array' && Array.isArray(value))\<close>.\<close>

definition array_checks :: "string \<Rightarrow> field_schema \<Rightarrow> jsval list \<Rightarrow> validation_error list" where
  "array_checks fieldName fieldSchema xs =
     (case minItems fieldSchema of
        Some n \<Rightarrow>
          if n \<noteq> 0 \<and> length xs < n then
            [\<lparr>field = fieldName,
              message = fieldName @ '' must contain at least '' @ decimal n @ '' items'',
              code = ''MIN_ITEMS'',
              extra = [(''minItems'', num_of_nat n), (''actualItems'', num_of_nat (length xs))]\<rparr>]
          else []
      | None \<Rightarrow> []) @
     (case maxItems fieldSchema of
        Some n \<Rightarrow>
          if n \<noteq> 0 \<and> length xs > n then
            [\<lparr>field = fieldName,
              message = fieldName @ '' must contain no more than '' @ decimal n @ '' items'',
              code = ''MAX_ITEMS'',
              extra = [(''maxItems'', num_of_nat n), (''actualItems'', num_of_nat (length xs))]\<rparr>]
          else []
      | None \<Rightarrow> [])"

text \<open>The object checks, inside
  \<^verbatim>\<open>if (fieldSchema.type === 'object' && typeof value === 'object' && value !== null)\<close>:
  one error for each name of \<^verbatim>\<open>requiredFields\<close> that is not a property of the
  value (\<^verbatim>\<open>!(requiredField in value)\<close>).\<close>

definition object_checks ::
  "string \<Rightarrow> field_schema \<Rightarrow> (string \<times> jsval) list \<Rightarrow> validation_error list" where
  "object_checks fieldName fieldSchema obj =
     (case requiredFields fieldSchema of
        None \<Rightarrow> []
      | Some names \<Rightarrow>
          map (\<lambda>requiredField.
                \<lparr>field = fieldName @ ''.'' @ requiredField,
                 message = requiredField @ '' is required in '' @ fieldName,
                 code = ''REQUIRED_OBJECT_FIELD'', extra = []\<rparr>)
            (filter (\<lambda>requiredField. \<not> has_property obj requiredField) names))"

text \<open>
  One pass of the loop body for the entry \<^verbatim>\<open>[fieldName, fieldSchema]\<close> and the
  value \<^verbatim>\<open>req.body[fieldName]\<close>: the errors it pushes, or the exception it
  throws. Each \<^verbatim>\<open>continue\<close> of the source is a branch that returns early. The
  three type-specific blocks exclude each other (a value is a string, an array or an
  object), and after the type check an array never reaches the object block.
\<close>

definition check_field ::
  "platform \<Rightarrow> string \<Rightarrow> field_schema \<Rightarrow> jsval \<Rightarrow> exn + validation_error list" where
  "check_field pf fieldName fieldSchema v =
     (if required fieldSchema \<and> (v = JUndefined \<or> v = JNull \<or> v = JStr [])
      then Inr [\<lparr>field = fieldName, message = fieldName @ '' is required'',
                 code = ''REQUIRED_FIELD'', extra = []\<rparr>]
      else if \<not> required fieldSchema \<and> (v = JUndefined \<or> v = JNull)
      then Inr []
      else if (case type fieldSchema of
                 None \<Rightarrow> False
               | Some t \<Rightarrow> t \<noteq> [] \<and> \<not> validateType v t)
      then Inr [\<lparr>field = fieldName,
                 message = fieldName @ '' must be of type '' @ (case type fieldSchema of Some t \<Rightarrow> t | None \<Rightarrow> []),
                 code = ''INVALID_TYPE'',
                 extra = [(''expected'', (case type fieldSchema of Some t \<Rightarrow> JStr t | None \<Rightarrow> JUndefined)),
                          (''actual'', JStr (typeof v))]\<rparr>]
      else
        (case v of
           JStr s \<Rightarrow>
             if type fieldSchema = Some ''string'' then string_checks pf fieldName fieldSchema s
             else Inr []
         | JArr xs \<Rightarrow>
             if type fieldSchema = Some ''array'' then Inr (array_checks fieldName fieldSchema xs)
             else Inr []
         | JObj obj \<Rightarrow>
             if type fieldSchema = Some ''object'' then Inr (object_checks fieldName fieldSchema obj)
             else Inr []
         | _ \<Rightarrow> Inr []))"

text \<open>The loop \<^verbatim>\<open>for (const [fieldName, fieldSchema] of Object.entries(schema))\<close>
  with the array \<^verbatim>\<open>errors\<close> it appends to; an exception leaves the loop.\<close>

fun validate_fields ::
  "platform \<Rightarrow> schema \<Rightarrow> (string \<times> jsval) list \<Rightarrow> validation_error list
    \<Rightarrow> exn + validation_error list" where
  "validate_fields pf [] reqBody errors = Inr errors"
| "validate_fields pf ((fieldName, fieldSchema) # rest) reqBody errors =
     (case check_field pf fieldName fieldSchema (get_prop reqBody fieldName) of
        Inl e \<Rightarrow> Inl e
      | Inr es \<Rightarrow> validate_fields pf rest reqBody (errors @ es))"

text \<open>The middleware \<^verbatim>\<open>validateRequest(schema)\<close>: status 400 with the errors
  when there are any, \<^verbatim>\<open>next()\<close> when there are none, and status 500 from the
  \<^verbatim>\<open>catch\<close> block when the loop threw.\<close>

definition validateRequest :: "platform \<Rightarrow> schema \<Rightarrow> request \<Rightarrow> outcome" where
  "validateRequest pf schema req =
     (case validate_fields pf schema (body req) [] of
        Inl e \<Rightarrow>
          Respond \<lparr>status = 500, success = False, error = ''Validation error'',
                   res_message = ''Internal validation error'', details = None, retryAfter = None\<rparr>
      | Inr errors \<Rightarrow>
          if length errors > 0 then
            Respond \<lparr>status = 400, success = False, error = ''Validation failed'',
                     res_message = ''Request validation failed'', details = Some errors,
                     retryAfter = None\<rparr>
          else Next req)"

section \<open>Authentication (auth.js)\<close>

text \<open>The two environment variables the authenticator reads; an unset variable is
  \<open>None\<close>.\<close>

record env =
  NODE_ENV :: "string option"
  API_KEY :: "string option"

subsection \<open>getApiKeyFromRequest\<close>

text \<open>A header value is a string or \<^verbatim>\<open>undefined\<close>.\<close>

definition header :: "request \<Rightarrow> string \<Rightarrow> jsval" where
  "header req name = (case map_of (headers req) name of None \<Rightarrow> JUndefined | Some s \<Rightarrow> JStr s)"

text \<open>The array \<^verbatim>\<open>locations\<close>. The second entry is
  \<^verbatim>\<open>req.headers['authorization']?.replace('Bearer ', '')\<close> of line 95.\<close>

definition locations :: "request \<Rightarrow> jsval list" where
  "locations req =
     [header req ''x-api-key'',
      (case map_of (headers req) ''authorization'' of
         None \<Rightarrow> JUndefined
       | Some s \<Rightarrow> JStr (replace ''Bearer '' [] s)),
      header req ''api-key'',
      get_prop (query req) ''apiKey'',
      get_prop (body req) ''apiKey'']"

text \<open>The loop over \<^verbatim>\<open>locations\<close>: the first entry with
  \<^verbatim>\<open>key && typeof key === 'string' && key.trim().length > 0\<close> is returned
  trimmed; \<open>None\<close> is \<^verbatim>\<open>null\<close>.\<close>

fun first_key :: "jsval list \<Rightarrow> string option" where
  "first_key [] = None"
| "first_key (key # rest) =
     (case key of
        JStr s \<Rightarrow> if s \<noteq> [] \<and> length (trim s) > 0 then Some (trim s) else first_key rest
      | _ \<Rightarrow> first_key rest)"

definition getApiKeyFromRequest :: "request \<Rightarrow> string option" where
  "getApiKeyFromRequest req = first_key (locations req)"

subsection \<open>isValidApiKey\<close>

definition isValidApiKey :: "env \<Rightarrow> jsval \<Rightarrow> bool" where
  "isValidApiKey e k =
     (case k of
        JStr s \<Rightarrow>
          if s = [] then False
          else if truthy_str (API_KEY e) then Some s = API_KEY e
          else if NODE_ENV e = Some ''development'' then length s \<ge> 8
          else False
      | _ \<Rightarrow> False)"

subsection \<open>authenticateRequest and optionalAuthenticate\<close>

text \<open>\<open>now\<close> stands for the time \<^verbatim>\<open>new Date()\<close> reads. On the values of the
  model nothing inside the \<^verbatim>\<open>try\<close> block throws.\<close>

definition authenticateRequest :: "env \<Rightarrow> int \<Rightarrow> request \<Rightarrow> outcome" where
  "authenticateRequest e now req =
     (if NODE_ENV e = Some ''development'' \<and> \<not> truthy_str (API_KEY e) then Next req
      else
        (case getApiKeyFromRequest req of
           None \<Rightarrow>
             Respond \<lparr>status = 401, success = False, error = ''Authentication required'',
                      res_message = ''API key is required for this endpoint'',
                      details = None, retryAfter = None\<rparr>
         | Some k \<Rightarrow>
             if \<not> isValidApiKey e (JStr k) then
               Respond \<lparr>status = 401, success = False, error = ''Invalid API key'',
                        res_message = ''The provided API key is invalid'',
                        details = None, retryAfter = None\<rparr>
             else Next (req\<lparr>auth := Some \<lparr>apiKey = Some k, authenticated = True, timestamp = now\<rparr>\<rparr>)))"

definition optionalAuthenticate :: "env \<Rightarrow> int \<Rightarrow> request \<Rightarrow> outcome" where
  "optionalAuthenticate e now req =
     (case getApiKeyFromRequest req of
        None \<Rightarrow> Next (req\<lparr>auth := Some \<lparr>apiKey = None, authenticated = False, timestamp = now\<rparr>\<rparr>)
      | Some k \<Rightarrow>
          if isValidApiKey e (JStr k) then
            Next (req\<lparr>auth := Some \<lparr>apiKey = Some k, authenticated = True, timestamp = now\<rparr>\<rparr>)
          else Next (req\<lparr>auth := Some \<lparr>apiKey = None, authenticated = False, timestamp = now\<rparr>\<rparr>))"

section \<open>The rate limiter of auth.js\<close>

text \<open>
  \<^verbatim>\<open>createApiKeyRateLimit(windowMs, maxRequests)\<close> creates the map
  \<^verbatim>\<open>requests\<close>, from a key to the array of its time stamps, and returns a
  middleware that reads and updates it. The map is a list of entries in insertion order
  with \<^verbatim>\<open>Map.prototype.set\<close>, \<^verbatim>\<open>delete\<close> and \<^verbatim>\<open>get\<close>; times are
  the integer milliseconds of \<^verbatim>\<open>Date.now()\<close>.
\<close>

type_synonym store = "(string \<times> int list) list"

fun Map_set :: "string \<Rightarrow> int list \<Rightarrow> store \<Rightarrow> store" where
  "Map_set k v [] = [(k, v)]"
| "Map_set k v ((k', v') # m) = (if k' = k then (k, v) # m else (k', v') # Map_set k v m)"

definition Map_delete :: "string \<Rightarrow> store \<Rightarrow> store" where
  "Map_delete k m = filter (\<lambda>entry. fst entry \<noteq> k) m"

definition Map_get :: "store \<Rightarrow> string \<Rightarrow> int list option" where
  "Map_get m k = map_of m k"

text \<open>The map a new limiter starts with.\<close>

definition new_requests :: store where
  "new_requests = []"

text \<open>The loop \<^verbatim>\<open>for (const [key, timestamps] of requests.entries())\<close>: the
  entries still to visit, and the map as the loop has changed it so far. The loop only
  rewrites or deletes the entry it is visiting.\<close>

fun cleanup :: "int \<Rightarrow> store \<Rightarrow> store \<Rightarrow> store" where
  "cleanup windowStart [] requests = requests"
| "cleanup windowStart ((key, timestamps) # entries) requests =
     (let validTimestamps = filter (\<lambda>ts. ts > windowStart) timestamps in
        if length validTimestamps = 0
        then cleanup windowStart entries (Map_delete key requests)
        else cleanup windowStart entries (Map_set key validTimestamps requests))"

text \<open>\<^verbatim>\<open>req.auth?.apiKey || req.ip\<close>.\<close>

definition rate_key :: "request \<Rightarrow> string" where
  "rate_key req =
     (case auth req of
        None \<Rightarrow> ip req
      | Some a \<Rightarrow> (case apiKey a of None \<Rightarrow> ip req | Some k \<Rightarrow> if k \<noteq> [] then k else ip req))"

text \<open>\<^verbatim>\<open>Math.ceil(windowMs / 1000)\<close> and \<^verbatim>\<open>Math.round(windowMs / 1000)\<close> on
  an integer number of milliseconds.\<close>

definition ceil_seconds :: "int \<Rightarrow> int" where
  "ceil_seconds windowMs = - ((- windowMs) div 1000)"

definition round_seconds :: "int \<Rightarrow> int" where
  "round_seconds windowMs = (windowMs + 500) div 1000"

text \<open>The middleware returned by \<^verbatim>\<open>createApiKeyRateLimit\<close>, run on the map
  \<open>requests\<close> at time \<open>now\<close>: the map it leaves, and its outcome.\<close>

definition createApiKeyRateLimit ::
  "int \<Rightarrow> int \<Rightarrow> store \<Rightarrow> int \<Rightarrow> request \<Rightarrow> store \<times> outcome" where
  "createApiKeyRateLimit windowMs maxRequests requests now req =
     (let k = rate_key req;
          windowStart = now - windowMs;
          cleaned = cleanup windowStart requests requests;
          keyRequests = (case Map_get cleaned k of None \<Rightarrow> [] | Some ts \<Rightarrow> ts);
          recentRequests = filter (\<lambda>ts. ts > windowStart) keyRequests
      in
        if int (length recentRequests) \<ge> maxRequests then
          (cleaned,
           Respond \<lparr>status = 429, success = False, error = ''Rate limit exceeded'',
                    res_message = ''Too many requests. Limit: '' @ decimal_int maxRequests @
                      '' per '' @ decimal_int (round_seconds windowMs) @ '' seconds'',
                    details = None, retryAfter = Some (ceil_seconds windowMs)\<rparr>)
        else (Map_set k (recentRequests @ [now]) cleaned, Next req))"

section \<open>The routes\<close>


definition no_rule :: field_schema where
  "no_rule = \<lparr>type = None, required = False, minLength = None, maxLength = None,
     pattern = None, format = None, minItems = None, maxItems = None, requiredFields = None\<rparr>"




text \<open>
  The routes of the application: \<^verbatim>\<open>GET /\<close> of index.js, the health routes, the
  AI routes, the OCR routes of routes/ocr.js and the PDF routes, each with the middleware
  its registration lists ahead of the handler. The \<^verbatim>\<open>GET\<close> routes list none,
  \<^verbatim>\<open>router.post('/batch', authenticateRequest, ...)\<close> lists the authenticator
  alone, and the other \<^verbatim>\<open>POST\<close> routes are registered as
  \<^verbatim>\<open>router.post(path, authenticateRequest, validateRequest(schema), ...)\<close>.
\<close>

datatype route =
    GET_root
  | GET_health | GET_health_detailed | GET_health_ready | GET_health_live
  | POST_ask_ai | GET_ask_ai_health
  | POST_ocr | POST_ocr_batch | GET_ocr_languages
  | POST_pdf_extract | POST_pdf_ocr | POST_pdf_analyze | GET_pdf_info




section \<open>Reference notions and sample inputs\<close>

subsection \<open>Validation\<close>

text \<open>The error the required check pushes for a field.\<close>

definition required_error :: "string \<Rightarrow> validation_error" where
  "required_error fieldName = \<lparr>field = fieldName, message = fieldName @ '' is required'',
     code = ''REQUIRED_FIELD'', extra = []\<rparr>"

text \<open>The numeric values the specification lets the kinds \<^verbatim>\<open>number\<close> and
  \<^verbatim>\<open>float\<close> accept: finite and not NaN.\<close>

definition is_finite_number :: "jsval \<Rightarrow> bool" where
  "is_finite_number v = (case v of JNum (Fin q) \<Rightarrow> True | _ \<Rightarrow> False)"

text \<open>The outcome of \<^verbatim>\<open>new RegExp(p).test(s)\<close>: the answer, or \<open>None\<close> when
  the constructor throws.\<close>

definition pattern_test :: "platform \<Rightarrow> string \<Rightarrow> string \<Rightarrow> bool option" where
  "pattern_test pf p s = (case RegExp pf p of None \<Rightarrow> None | Some test \<Rightarrow> Some (test s))"

text \<open>
  The payload's own field of a name, \<^verbatim>\<open>undefined\<close> when the payload does not
  have it, and the names an object inherits. The rules of a schema are about the
  payload's own fields.
\<close>

definition own_prop :: "(string \<times> jsval) list \<Rightarrow> string \<Rightarrow> jsval" where
  "own_prop obj name = (case map_of obj name of None \<Rightarrow> JUndefined | Some v \<Rightarrow> v)"

definition inherited_name :: "string \<Rightarrow> bool" where
  "inherited_name name = (name = ''__proto__'' \<or> name \<in> set Object_prototype_functions)"

text \<open>No field name of the schema and no required subfield name is the name of an
  inherited property.\<close>

definition no_inherited_names :: "schema \<Rightarrow> bool" where
  "no_inherited_names S =
     list_all (\<lambda>entry. \<not> inherited_name (fst entry) \<and>
        (case requiredFields (snd entry) of
           None \<Rightarrow> True
         | Some names \<Rightarrow> list_all (\<lambda>name. \<not> inherited_name name) names)) S"

text \<open>
  What it means for a value to satisfy a rule, read off the rule vocabulary rather than
  off the loop. A field that is absent (\<^verbatim>\<open>undefined\<close> or \<^verbatim>\<open>null\<close>)
  satisfies exactly the optional rules; an empty string does not supply a required
  field. A present value must have the kind the rule names, when that is one of the
  seven kinds, and must meet the constraints that belong to its kind: length bounds,
  pattern and format for a string rule, item bounds for an array rule, required
  subfields for an object rule. An empty pattern constrains nothing.
\<close>

definition known_kind :: "string \<Rightarrow> bool" where
  "known_kind k =
     (k \<in> set [''string'', ''number'', ''boolean'', ''array'', ''object'', ''integer'', ''float''])"

definition has_kind :: "string \<Rightarrow> jsval \<Rightarrow> bool" where
  "has_kind k v =
     (case v of
        JStr s \<Rightarrow> k = ''string''
      | JBool b \<Rightarrow> k = ''boolean''
      | JArr xs \<Rightarrow> k = ''array''
      | JObj obj \<Rightarrow> k = ''object''
      | JNum x \<Rightarrow>
          (case x of
             NaN \<Rightarrow> False
           | Fin q \<Rightarrow> k = ''number'' \<or> k = ''float'' \<or> (k = ''integer'' \<and> frac q = 0)
           | _ \<Rightarrow> k = ''number'' \<or> k = ''float'')
      | _ \<Rightarrow> False)"

definition string_ok :: "platform \<Rightarrow> field_schema \<Rightarrow> string \<Rightarrow> bool" where
  "string_ok pf r s =
     ((case minLength r of None \<Rightarrow> True | Some n \<Rightarrow> n \<le> length s) \<and>
      (case maxLength r of None \<Rightarrow> True | Some n \<Rightarrow> length s \<le> n) \<and>
      (case pattern r of None \<Rightarrow> True | Some p \<Rightarrow> p = [] \<or> pattern_test pf p s = Some True) \<and>
      (if format r = Some ''url'' then URL_parses pf s else True) \<and>
      (if format r = Some ''email'' then isValidEmail s else True))"

definition array_ok :: "field_schema \<Rightarrow> jsval list \<Rightarrow> bool" where
  "array_ok r xs =
     ((case minItems r of None \<Rightarrow> True | Some n \<Rightarrow> n \<le> length xs) \<and>
      (case maxItems r of None \<Rightarrow> True | Some n \<Rightarrow> length xs \<le> n))"

definition object_ok :: "field_schema \<Rightarrow> (string \<times> jsval) list \<Rightarrow> bool" where
  "object_ok r obj =
     (case requiredFields r of None \<Rightarrow> True | Some names \<Rightarrow> list_all (\<lambda>name. name \<in> fst ` set obj) names)"

definition satisfies :: "platform \<Rightarrow> field_schema \<Rightarrow> jsval \<Rightarrow> bool" where
  "satisfies pf r v =
     (if v = JUndefined \<or> v = JNull then \<not> required r
      else if required r \<and> v = JStr [] then False
      else
        (case type r of None \<Rightarrow> True | Some k \<Rightarrow> if known_kind k then has_kind k v else True) \<and>
        (case v of
           JStr s \<Rightarrow> if type r = Some ''string'' then string_ok pf r s else True
         | JArr xs \<Rightarrow> if type r = Some ''array'' then array_ok r xs else True
         | JObj obj \<Rightarrow> if type r = Some ''object'' then object_ok r obj else True
         | _ \<Rightarrow> True))"

text \<open>Every non-empty pattern of the schema is a well-formed regular expression.\<close>

definition patterns_compile :: "platform \<Rightarrow> schema \<Rightarrow> bool" where
  "patterns_compile pf S =
     list_all (\<lambda>entry. case pattern (snd entry) of
                 None \<Rightarrow> True
               | Some p \<Rightarrow> p = [] \<or> RegExp pf p \<noteq> None) S"

text \<open>No upper bound of the schema is zero.\<close>

definition upper_bounds_positive :: "schema \<Rightarrow> bool" where
  "upper_bounds_positive S =
     list_all (\<lambda>entry. maxLength (snd entry) \<noteq> Some 0 \<and> maxItems (snd entry) \<noteq> Some 0) S"

text \<open>A payload satisfies a schema when its own field of each name satisfies the rule
  of that name.\<close>

definition schema_satisfied :: "platform \<Rightarrow> schema \<Rightarrow> (string \<times> jsval) list \<Rightarrow> bool" where
  "schema_satisfied pf S P = list_all (\<lambda>entry. satisfies pf (snd entry) (own_prop P (fst entry))) S"

text \<open>
  The loop reaches the pattern check of a field with a malformed pattern: the rule is a
  string rule, the value the loop reads is a string that passes the required check, and
  the pattern is not empty and does not compile.
\<close>

definition bad_pattern_reached :: "platform \<Rightarrow> (string \<times> jsval) list \<Rightarrow> string \<times> field_schema \<Rightarrow> bool" where
  "bad_pattern_reached pf P entry =
     (case get_prop P (fst entry) of
        JStr s \<Rightarrow>
          type (snd entry) = Some ''string'' \<and> \<not> (required (snd entry) \<and> s = []) \<and>
          (case pattern (snd entry) of
             None \<Rightarrow> False
           | Some p \<Rightarrow> p \<noteq> [] \<and> (case RegExp pf p of None \<Rightarrow> True | Some test \<Rightarrow> False))
      | _ \<Rightarrow> False)"

text \<open>The two rejections of \<^verbatim>\<open>validateRequest\<close>.\<close>

definition validation_fault :: response where
  "validation_fault =
     \<lparr>status = 500, success = False, error = ''Validation error'',
      res_message = ''Internal validation error'', details = None, retryAfter = None\<rparr>"

definition validation_failed :: "validation_error list \<Rightarrow> response" where
  "validation_failed errors =
     \<lparr>status = 400, success = False, error = ''Validation failed'',
      res_message = ''Request validation failed'', details = Some errors, retryAfter = None\<rparr>"









subsection \<open>Key resolution\<close>

text \<open>What the key resolver accepts from a location: a string whose trimmed form is
  not empty.\<close>

definition accepted :: "jsval \<Rightarrow> bool" where
  "accepted v = (case v of JStr s \<Rightarrow> length (trim s) > 0 | _ \<Rightarrow> False)"

text \<open>
  The key resolver as the specification words it: the five locations in order, the
  \<^verbatim>\<open>authorization\<close> header with a \<^verbatim>\<open>Bearer \<close> prefix stripped, the
  first accepted candidate returned trimmed.
\<close>

definition strip_Bearer_prefix :: "string \<Rightarrow> string" where
  "strip_Bearer_prefix s = (if take 7 s = ''Bearer '' then drop 7 s else s)"

definition resolveKey :: "request \<Rightarrow> string option" where
  "resolveKey req =
     (case find accepted
        [header req ''x-api-key'',
         (case map_of (headers req) ''authorization'' of
            None \<Rightarrow> JUndefined
          | Some s \<Rightarrow> JStr (strip_Bearer_prefix s)),
         header req ''api-key'',
         get_prop (query req) ''apiKey'',
         get_prop (body req) ''apiKey''] of
        Some (JStr s) \<Rightarrow> Some (trim s)
      | _ \<Rightarrow> None)"

subsection \<open>The limiter\<close>

text \<open>The time stamps of a key that lie inside the window that starts at
  \<open>windowStart\<close>: the array \<^verbatim>\<open>recentRequests\<close> of the limiter, read off the map
  it was called with.\<close>

definition recent :: "int \<Rightarrow> store \<Rightarrow> string \<Rightarrow> int list" where
  "recent windowStart requests k =
     (case Map_get requests k of None \<Rightarrow> [] | Some ts \<Rightarrow> filter (\<lambda>t. t > windowStart) ts)"

text \<open>The rejection of the limiter.\<close>

definition rate_limit_exceeded :: "int \<Rightarrow> int \<Rightarrow> response" where
  "rate_limit_exceeded windowMs maxRequests =
     \<lparr>status = 429, success = False, error = ''Rate limit exceeded'',
      res_message = ''Too many requests. Limit: '' @ decimal_int maxRequests @
        '' per '' @ decimal_int (round_seconds windowMs) @ '' seconds'',
      details = None, retryAfter = Some (ceil_seconds windowMs)\<rparr>"

subsection \<open>Sample inputs\<close>

text \<open>
  A platform for the worked examples. Its \<^verbatim>\<open>RegExp\<close> knows the pattern
  \<^verbatim>\<open>^a\<close>, which \<^verbatim>\<open>test\<close> accepts on the strings that start with
  \<^verbatim>\<open>a\<close>, and answers any other pattern with a SyntaxError; the examples use it
  on \<^verbatim>\<open>^a\<close> and on \<^verbatim>\<open>(\<close>, an unterminated group, only. Its
  \<^verbatim>\<open>URL\<close> parses the strings that start with \<^verbatim>\<open>https://\<close> and have more
  characters after it.
\<close>

definition sample_platform :: platform where
  "sample_platform =
     \<lparr>RegExp = (\<lambda>p. if p = ''^a'' then Some (\<lambda>s. take 1 s = ''a'') else None),
      URL_parses = (\<lambda>s. take 8 s = ''https://'' \<and> length s > 8)\<rparr>"

text \<open>The rule of the field \<^verbatim>\<open>image\<close> in \<^verbatim>\<open>ocrSchema\<close>.\<close>

definition image_rule :: field_schema where
  "image_rule = no_rule\<lparr>type := Some ''string'', required := True, minLength := Some 1\<rparr>"

text \<open>A string rule with a lower length bound and a pattern, and a string rule whose
  pattern is malformed.\<close>

definition name_rule :: field_schema where
  "name_rule = no_rule\<lparr>type := Some ''string'', required := True, minLength := Some 3,
     pattern := Some ''^a''\<rparr>"

definition bad_pattern_rule :: field_schema where
  "bad_pattern_rule = no_rule\<lparr>type := Some ''string'', pattern := Some ''(''\<rparr>"

text \<open>Environments: development without \<^verbatim>\<open>API_KEY\<close>, and production with the
  key \<^verbatim>\<open>secret123\<close>.\<close>

definition dev_env :: env where
  "dev_env = \<lparr>NODE_ENV = Some ''development'', API_KEY = None\<rparr>"


text \<open>Requests: one without headers, query or body fields, and variants of it that
  carry a key.\<close>

definition empty_request :: request where
  "empty_request = \<lparr>headers = [], query = [], body = [], ip = ''127.0.0.1'', auth = None\<rparr>"

definition key8_request :: request where
  "key8_request = empty_request\<lparr>headers := [(''x-api-key'', ''12345678'')]\<rparr>"

definition key7_request :: request where
  "key7_request = empty_request\<lparr>headers := [(''x-api-key'', ''1234567'')]\<rparr>"

definition token_request :: request where
  "token_request = empty_request\<lparr>headers := [(''authorization'', ''Token Bearer abc'')]\<rparr>"

definition both_request :: request where
  "both_request = empty_request\<lparr>headers := [(''x-api-key'', '' A '')], body := [(''apiKey'', JStr ''B'')]\<rparr>"

definition name_request :: request where
  "name_request = empty_request\<lparr>body := [(''name'', JStr ''abc'')]\<rparr>"

definition bad_request :: request where
  "bad_request = empty_request\<lparr>body := [(''x'', JStr ''a'')]\<rparr>"







text \<open>A map that tracks one key, last seen at time 0.\<close>

definition stale_store :: store where
  "stale_store = [(''10.0.0.9'', [0])]"

section \<open>The validator: type checks and the required check\<close>

subsection \<open>The loop and its accumulator\<close>

lemma validate_fields_acc:
  "validate_fields pf S b acc =
     (case validate_fields pf S b [] of Inl e \<Rightarrow> Inl e | Inr es \<Rightarrow> Inr (acc @ es))"
proof (induction S arbitrary: acc)
  case Nil
  then show ?case by simp
next
  case (Cons a S)
  obtain n r where a: "a = (n, r)" by (cases a)
  show ?case
  proof (cases "check_field pf n r (get_prop b n)")
    case (Inl e)
    then show ?thesis by (simp add: a)
  next
    case (Inr es)
    have "validate_fields pf (a # S) b acc = validate_fields pf S b (acc @ es)"
      by (simp add: a Inr)
    also have "\<dots> = (case validate_fields pf S b [] of Inl e \<Rightarrow> Inl e | Inr es' \<Rightarrow> Inr ((acc @ es) @ es'))"
      by (rule Cons.IH)
    finally show ?thesis
      using Cons.IH[of es] by (simp add: a Inr split: sum.splits)
  qed
qed

lemma validate_fields_append:
  "validate_fields pf (S1 @ S2) b acc =
     (case validate_fields pf S1 b acc of
        Inl e \<Rightarrow> Inl e
      | Inr es \<Rightarrow> validate_fields pf S2 b es)"
  by (induction S1 arbitrary: acc) (auto split: sum.splits)

lemma validate_fields_Cons:
  "validate_fields pf ((n, r) # S) b [] =
     (case check_field pf n r (get_prop b n) of
        Inl e \<Rightarrow> Inl e
      | Inr es \<Rightarrow> (case validate_fields pf S b [] of Inl e \<Rightarrow> Inl e | Inr es' \<Rightarrow> Inr (es @ es')))"
proof (cases "check_field pf n r (get_prop b n)")
  case (Inl e)
  then show ?thesis by simp
next
  case (Inr es)
  then show ?thesis using validate_fields_acc[of pf S b es] by simp
qed

subsection \<open>Numeric kinds\<close>

text \<open>
  Claim C6, as the code has it. \<^verbatim>\<open>validateType\<close> accepts a value for the kind
  \<^verbatim>\<open>integer\<close> exactly when it is a finite number without a fractional part, and
  for the kinds \<^verbatim>\<open>number\<close> and \<^verbatim>\<open>float\<close> exactly when it is a number other
  than NaN: the two infinities are accepted, since the test is
  \<^verbatim>\<open>typeof value === 'number' && !isNaN(value)\<close>.
\<close>

theorem validateType_numeric_kinds:
  "validateType v ''integer'' = (\<exists>q. v = JNum (Fin q) \<and> q \<in> \<int>) \<and>
   validateType v ''number'' = (\<exists>n. v = JNum n \<and> n \<noteq> NaN) \<and>
   validateType v ''float'' = (\<exists>n. v = JNum n \<and> n \<noteq> NaN)"
proof -
  have int_iff: "Number_isInteger v = (\<exists>q. v = JNum (Fin q) \<and> q \<in> \<int>)"
  proof (cases v)
    case (JNum n)
    then show ?thesis
      by (cases n) (auto simp: Ints_def intro: floor_of_int[symmetric] elim: sym)
  qed simp_all
  have num_iff: "(typeof v = ''number'' \<and> \<not> isNaN v) = (\<exists>n. v = JNum n \<and> n \<noteq> NaN)"
  proof (cases v)
    case (JNum n)
    then show ?thesis by (cases n) simp_all
  qed simp_all
  show ?thesis using int_iff num_iff by simp
qed

text \<open>
  Claim C6 as stated fails at the infinities: \<^verbatim>\<open>Infinity\<close> passes the check for
  \<^verbatim>\<open>number\<close> and \<^verbatim>\<open>-Infinity\<close> the check for \<^verbatim>\<open>float\<close>, and neither
  is a finite number.
\<close>

theorem validateType_accepts_infinity:
  "validateType (JNum PosInf) ''number'' \<noteq> is_finite_number (JNum PosInf) \<and>
   validateType (JNum NegInf) ''float'' \<noteq> is_finite_number (JNum NegInf)"
  by (simp add: is_finite_number_def)

subsection \<open>Required fields\<close>

text \<open>
  Claim C10. For a rule with \<^verbatim>\<open>required: true\<close> and a value that is
  \<^verbatim>\<open>undefined\<close>, \<^verbatim>\<open>null\<close> or the empty string, the pass over the field
  yields exactly the one REQUIRED_FIELD error, whatever else the rule says (no type,
  length, pattern or format check is applied); and in the result of the whole loop this
  one error is all that stands between the errors of the fields before it and the errors
  of the fields after it.
\<close>

theorem required_empty_like_missing:
  assumes "required fieldSchema"
    and "v = JUndefined \<or> v = JNull \<or> v = JStr []"
  shows "check_field pf fieldName fieldSchema v = Inr [required_error fieldName] \<and>
     (get_prop reqBody fieldName = v \<longrightarrow>
      validate_fields pf (before @ (fieldName, fieldSchema) # after) reqBody [] =
       (case validate_fields pf before reqBody [] of
          Inl e \<Rightarrow> Inl e
        | Inr es1 \<Rightarrow>
            (case validate_fields pf after reqBody [] of
               Inl e \<Rightarrow> Inl e
             | Inr es2 \<Rightarrow> Inr (es1 @ [required_error fieldName] @ es2))))"
proof (intro conjI impI)
  show c: "check_field pf fieldName fieldSchema v = Inr [required_error fieldName]"
    using assms by (auto simp: check_field_def required_error_def)
  assume v: "get_prop reqBody fieldName = v"
  show "validate_fields pf (before @ (fieldName, fieldSchema) # after) reqBody [] =
       (case validate_fields pf before reqBody [] of
          Inl e \<Rightarrow> Inl e
        | Inr es1 \<Rightarrow>
            (case validate_fields pf after reqBody [] of
               Inl e \<Rightarrow> Inl e
             | Inr es2 \<Rightarrow> Inr (es1 @ [required_error fieldName] @ es2)))"
  proof (cases "validate_fields pf before reqBody []")
    case (Inl e)
    then show ?thesis by (simp add: validate_fields_append)
  next
    case (Inr es1)
    have "validate_fields pf (before @ (fieldName, fieldSchema) # after) reqBody [] =
        validate_fields pf after reqBody (es1 @ [required_error fieldName])"
      by (simp add: validate_fields_append Inr c v)
    then show ?thesis
      using validate_fields_acc[of pf after reqBody "es1 @ [required_error fieldName]"]
      by (simp add: Inr split: sum.splits)
  qed
qed

text \<open>The theorem at the rule of \<^verbatim>\<open>image\<close> and the body
  \<^verbatim>\<open>{ image: '' }\<close>: one REQUIRED_FIELD error and no MIN_LENGTH error.\<close>

theorem required_empty_like_missing_witness:
  "required image_rule \<and>
   check_field sample_platform ''image'' image_rule (JStr []) = Inr [required_error ''image''] \<and>
   validate_fields sample_platform [(''image'', image_rule)] [(''image'', JStr [])] [] =
     Inr [required_error ''image'']"
proof -
  have r: "required image_rule" by (simp add: image_rule_def no_rule_def)
  have v: "JStr [] = JUndefined \<or> JStr [] = JNull \<or> JStr [] = JStr []" by simp
  have g: "get_prop [(''image'', JStr [])] ''image'' = JStr []" by (simp add: get_prop_def)
  show ?thesis
    using r g required_empty_like_missing[OF r v, of sample_platform "''image''"
        "[(''image'', JStr [])]" "[]" "[]"]
    by simp
qed

section \<open>The key resolver and the authenticator\<close>

subsection \<open>The loop over the locations\<close>

lemma trim_empty [simp]: "trim [] = []"
  by (simp add: trim_def)

lemma accepted_nonempty: "accepted (JStr s) \<Longrightarrow> s \<noteq> []"
  by (auto simp: accepted_def)

lemma first_key_step:
  "first_key (v # vs) = (if accepted v then (case v of JStr s \<Rightarrow> Some (trim s) | _ \<Rightarrow> None) else first_key vs)"
  by (cases v) (auto simp: accepted_def)

lemma first_key_None: "first_key vs = None \<longleftrightarrow> (\<forall>i<length vs. \<not> accepted (vs ! i))"
proof (induction vs)
  case Nil
  then show ?case by simp
next
  case (Cons v vs)
  show ?case
  proof (cases "accepted v")
    case True
    then have "first_key (v # vs) \<noteq> None"
      by (subst first_key_step) (auto simp: accepted_def split: jsval.splits)
    moreover have "\<not> (\<forall>i<length (v # vs). \<not> accepted ((v # vs) ! i))"
    proof
      assume "\<forall>i<length (v # vs). \<not> accepted ((v # vs) ! i)"
      then have "\<not> accepted ((v # vs) ! 0)" by blast
      with True show False by simp
    qed
    ultimately show ?thesis by blast
  next
    case False
    have "(\<forall>i<length (v # vs). \<not> accepted ((v # vs) ! i)) \<longleftrightarrow> (\<forall>i<length vs. \<not> accepted (vs ! i))"
      using False by (auto simp: nth_Cons split: nat.splits)
    moreover have "first_key (v # vs) = first_key vs"
      by (subst first_key_step) (simp add: False)
    ultimately show ?thesis using Cons.IH by simp
  qed
qed

lemma first_key_Some:
  "first_key vs = Some k \<longleftrightarrow>
     (\<exists>i<length vs. (\<exists>s. vs ! i = JStr s \<and> length (trim s) > 0 \<and> k = trim s) \<and>
        (\<forall>j<i. \<not> accepted (vs ! j)))"
proof (induction vs)
  case Nil
  then show ?case by simp
next
  case (Cons v vs)
  show ?case
  proof (cases "accepted v")
    case True
    then obtain s where s: "v = JStr s" "length (trim s) > 0"
      by (cases v) (auto simp: accepted_def)
    have "first_key (v # vs) = Some (trim s)"
      by (subst first_key_step) (use True s in simp)
    moreover have "(\<exists>i<length (v # vs). (\<exists>s'. (v # vs) ! i = JStr s' \<and> length (trim s') > 0 \<and> k = trim s') \<and>
        (\<forall>j<i. \<not> accepted ((v # vs) ! j))) \<longleftrightarrow> k = trim s"
    proof
      assume "\<exists>i<length (v # vs). (\<exists>s'. (v # vs) ! i = JStr s' \<and> length (trim s') > 0 \<and> k = trim s') \<and>
        (\<forall>j<i. \<not> accepted ((v # vs) ! j))"
      then obtain i s' where i: "(v # vs) ! i = JStr s'" "k = trim s'" "\<forall>j<i. \<not> accepted ((v # vs) ! j)"
        by blast
      have "i = 0"
      proof (rule ccontr)
        assume "i \<noteq> 0"
        then have "\<not> accepted ((v # vs) ! 0)" using i(3) by blast
        with True show False by simp
      qed
      with i s show "k = trim s" by simp
    next
      assume "k = trim s"
      with s show "\<exists>i<length (v # vs). (\<exists>s'. (v # vs) ! i = JStr s' \<and> length (trim s') > 0 \<and> k = trim s') \<and>
        (\<forall>j<i. \<not> accepted ((v # vs) ! j))"
        by (intro exI[of _ 0]) simp
    qed
    ultimately show ?thesis by auto
  next
    case False
    have "(\<exists>i<length (v # vs). (\<exists>s. (v # vs) ! i = JStr s \<and> length (trim s) > 0 \<and> k = trim s) \<and>
        (\<forall>j<i. \<not> accepted ((v # vs) ! j))) \<longleftrightarrow>
      (\<exists>i<length vs. (\<exists>s. vs ! i = JStr s \<and> length (trim s) > 0 \<and> k = trim s) \<and>
        (\<forall>j<i. \<not> accepted (vs ! j)))" (is "?L \<longleftrightarrow> ?R")
    proof
      assume ?L
      then obtain i s where i: "i < length (v # vs)" "(v # vs) ! i = JStr s" "length (trim s) > 0" "k = trim s"
        "\<forall>j<i. \<not> accepted ((v # vs) ! j)" by blast
      have "i \<noteq> 0"
      proof
        assume "i = 0"
        with i(2,3) have "accepted v" by (simp add: accepted_def)
        with False show False by simp
      qed
      then obtain i' where i': "i = Suc i'" by (cases i) auto
      have "\<forall>j<i'. \<not> accepted (vs ! j)"
      proof (intro allI impI)
        fix j assume "j < i'"
        then have "Suc j < i" using i' by simp
        then have "\<not> accepted ((v # vs) ! Suc j)" using i(5) by blast
        then show "\<not> accepted (vs ! j)" by simp
      qed
      with i i' show ?R by (intro exI[of _ i']) auto
    next
      assume ?R
      then obtain i s where i: "i < length vs" "vs ! i = JStr s" "length (trim s) > 0" "k = trim s"
        "\<forall>j<i. \<not> accepted (vs ! j)" by blast
      have "\<forall>j<Suc i. \<not> accepted ((v # vs) ! j)"
        using False i(5) by (auto simp: nth_Cons split: nat.splits)
      with i show ?L by (intro exI[of _ "Suc i"]) auto
    qed
    moreover have "first_key (v # vs) = first_key vs"
      by (subst first_key_step) (simp add: False)
    ultimately show ?thesis using Cons.IH by simp
  qed
qed

lemma replace_Bearer_prefix: "take 7 s = ''Bearer '' \<Longrightarrow> replace ''Bearer '' [] s = drop 7 s"
  by (cases s) (simp_all add: eval_nat_numeral)

lemma locations_length: "length (locations req) = 5"
  by (simp add: locations_def)

subsection \<open>Resolution order\<close>

text \<open>
  The resolver looks at five candidates in this order: the header
  \<^verbatim>\<open>x-api-key\<close>; what line 95 computes from the header
  \<^verbatim>\<open>authorization\<close>; the header \<^verbatim>\<open>api-key\<close>; the query parameter
  \<^verbatim>\<open>apiKey\<close>; the body field \<^verbatim>\<open>apiKey\<close>. It returns \<^verbatim>\<open>null\<close>
  exactly when no candidate is a string with a non-empty trimmed form, and otherwise the
  trimmed form of the first candidate that is one. A request whose header
  \<^verbatim>\<open>x-api-key\<close> is \<open>A\<close>, not blank, resolves to the trimmed \<open>A\<close> whatever its
  body holds. On a value that starts with \<^verbatim>\<open>Bearer \<close> line 95 strips that prefix.
\<close>

lemma resolution_order:
  "locations req =
     [header req ''x-api-key'',
      (case map_of (headers req) ''authorization'' of
         None \<Rightarrow> JUndefined
       | Some a \<Rightarrow> JStr (replace ''Bearer '' [] a)),
      header req ''api-key'',
      get_prop (query req) ''apiKey'',
      get_prop (body req) ''apiKey''] \<and>
   (take 7 s = ''Bearer '' \<longrightarrow> replace ''Bearer '' [] s = drop 7 s) \<and>
   (getApiKeyFromRequest req = None \<longleftrightarrow> (\<forall>i<5. \<not> accepted (locations req ! i))) \<and>
   (getApiKeyFromRequest req = Some k \<longleftrightarrow>
      (\<exists>i<5. (\<exists>c. locations req ! i = JStr c \<and> length (trim c) > 0 \<and> k = trim c) \<and>
         (\<forall>j<i. \<not> accepted (locations req ! j)))) \<and>
   (map_of (headers req) ''x-api-key'' = Some A \<and> length (trim A) > 0 \<longrightarrow>
      getApiKeyFromRequest req = Some (trim A))"
proof (intro conjI impI)
  show "locations req =
     [header req ''x-api-key'',
      (case map_of (headers req) ''authorization'' of
         None \<Rightarrow> JUndefined
       | Some a \<Rightarrow> JStr (replace ''Bearer '' [] a)),
      header req ''api-key'',
      get_prop (query req) ''apiKey'',
      get_prop (body req) ''apiKey'']"
    by (simp add: locations_def)
next
  assume "take 7 s = ''Bearer ''"
  then show "replace ''Bearer '' [] s = drop 7 s"
    by (rule replace_Bearer_prefix)
next
  show "getApiKeyFromRequest req = None \<longleftrightarrow> (\<forall>i<5. \<not> accepted (locations req ! i))"
    unfolding getApiKeyFromRequest_def first_key_None locations_length ..
next
  show "getApiKeyFromRequest req = Some k \<longleftrightarrow>
      (\<exists>i<5. (\<exists>c. locations req ! i = JStr c \<and> length (trim c) > 0 \<and> k = trim c) \<and>
         (\<forall>j<i. \<not> accepted (locations req ! j)))"
    unfolding getApiKeyFromRequest_def first_key_Some locations_length ..
next
  assume a: "map_of (headers req) ''x-api-key'' = Some A \<and> length (trim A) > 0"
  then have "locations req = JStr A # tl (locations req)" "accepted (JStr A)"
    by (simp_all add: locations_def header_def accepted_def)
  then have "first_key (locations req) = Some (trim A)"
    using first_key_step[of "JStr A" "tl (locations req)"] by simp
  then show "getApiKeyFromRequest req = Some (trim A)"
    by (simp add: getApiKeyFromRequest_def)
qed

text \<open>A request with the header \<^verbatim>\<open>x-api-key:  A \<close> and the body field
  \<^verbatim>\<open>apiKey: 'B'\<close> resolves to \<^verbatim>\<open>A\<close>.\<close>

lemma resolution_order_example:
  "map_of (headers both_request) ''x-api-key'' = Some '' A '' \<and> length (trim '' A '') > 0 \<and>
   get_prop (body both_request) ''apiKey'' = JStr ''B'' \<and>
   getApiKeyFromRequest both_request = Some ''A'' \<and>
   take 7 ''Bearer x'' = ''Bearer '' \<and> replace ''Bearer '' [] ''Bearer x'' = ''x''"
proof -
  have h: "map_of (headers both_request) ''x-api-key'' = Some '' A ''"
    by (simp add: both_request_def empty_request_def)
  have t: "trim '' A '' = ''A''"
    by (simp add: trim_def js_whitespace_def)
  have b: "get_prop (body both_request) ''apiKey'' = JStr ''B''"
    by (simp add: both_request_def empty_request_def get_prop_def)
  show ?thesis
    using h t b resolution_order[of both_request "''Bearer x''" "''A''" "'' A ''"]
    by simp
qed

text \<open>
  Claim C5. The claim has the \<^verbatim>\<open>authorization\<close> header taken with a
  \<^verbatim>\<open>Bearer \<close> prefix stripped, so that a value without this prefix is a candidate
  as it is. Line 95 calls \<^verbatim>\<open>replace('Bearer ', '')\<close>, which is not anchored at
  the start: from the header \<^verbatim>\<open>authorization: Token Bearer abc\<close> the code
  resolves \<^verbatim>\<open>Token abc\<close>, where the resolver of the claim resolves
  \<^verbatim>\<open>Token Bearer abc\<close>.
\<close>

theorem getApiKeyFromRequest_not_prefix:
  "getApiKeyFromRequest token_request = Some ''Token abc'' \<and>
   resolveKey token_request = Some ''Token Bearer abc''"
  by (simp add: getApiKeyFromRequest_def locations_def resolveKey_def strip_Bearer_prefix_def
      accepted_def token_request_def empty_request_def header_def get_prop_def trim_def
      js_whitespace_def)

subsection \<open>Development mode without a configured key\<close>

lemma authenticateRequest_skip:
  "NODE_ENV e = Some ''development'' \<Longrightarrow> \<not> truthy_str (API_KEY e) \<Longrightarrow>
     authenticateRequest e now req = Next req"
  by (simp add: authenticateRequest_def)

text \<open>
  Claim C3, as the code has it. In development mode with no configured key
  (\<^verbatim>\<open>API_KEY\<close> unset or empty) the authenticator calls \<^verbatim>\<open>next()\<close> at once
  for every request and hands the request on as it came: it attaches nothing to it.
\<close>

theorem authenticateRequest_dev_bypass:
  assumes "NODE_ENV e = Some ''development''" and "\<not> truthy_str (API_KEY e)"
  shows "authenticateRequest e now req = Next req"
  using assms by (simp add: authenticateRequest_skip)

theorem authenticateRequest_dev_bypass_witness:
  "NODE_ENV dev_env = Some ''development'' \<and> \<not> truthy_str (API_KEY dev_env) \<and>
   authenticateRequest dev_env 0 key7_request = Next key7_request"
proof -
  have a: "NODE_ENV dev_env = Some ''development''" by (simp add: dev_env_def)
  have b: "\<not> truthy_str (API_KEY dev_env)" by (simp add: dev_env_def)
  show ?thesis using a b authenticateRequest_dev_bypass[OF a b, of 0 key7_request] by simp
qed

text \<open>
  Claim C3 as stated fails: the request that leaves the authenticator in development
  mode carries no \<^verbatim>\<open>auth\<close> property at all, so no identity with
  \<^verbatim>\<open>authenticated: false\<close> is attached.
\<close>

theorem authenticateRequest_dev_no_identity:
  "authenticateRequest dev_env 0 empty_request = Next empty_request \<and> auth empty_request = None"
  by (simp add: authenticateRequest_def dev_env_def empty_request_def)

text \<open>
  Claim C4, as the code has it. With no configured key and development mode active,
  \<^verbatim>\<open>isValidApiKey\<close> accepts a string exactly when its length is at least 8; the
  non-failing authenticator \<^verbatim>\<open>optionalAuthenticate\<close> attaches
  \<^verbatim>\<open>authenticated: true\<close> with the key when the resolved key has length at least
  8 and \<^verbatim>\<open>authenticated: false\<close> when it is shorter; and
  \<^verbatim>\<open>authenticateRequest\<close> does not look at the key: it admits the request
  unchanged.
\<close>

theorem dev_mode_key_length:
  assumes "NODE_ENV e = Some ''development''" and "\<not> truthy_str (API_KEY e)"
  shows "isValidApiKey e (JStr k) = (8 \<le> length k) \<and>
    (getApiKeyFromRequest req = Some c \<longrightarrow>
       optionalAuthenticate e now req =
         Next (req\<lparr>auth := Some (if 8 \<le> length c
                 then \<lparr>apiKey = Some c, authenticated = True, timestamp = now\<rparr>
                 else \<lparr>apiKey = None, authenticated = False, timestamp = now\<rparr>)\<rparr>)) \<and>
    authenticateRequest e now req = Next req"
proof -
  have v: "isValidApiKey e (JStr x) = (8 \<le> length x)" for x
    using assms by (cases x) (simp_all add: isValidApiKey_def)
  show ?thesis
    using assms by (simp add: v optionalAuthenticate_def authenticateRequest_skip)
qed

theorem dev_mode_key_length_witness:
  "NODE_ENV dev_env = Some ''development'' \<and> \<not> truthy_str (API_KEY dev_env) \<and>
   isValidApiKey dev_env (JStr ''12345678'') \<and> \<not> isValidApiKey dev_env (JStr ''1234567'') \<and>
   getApiKeyFromRequest key8_request = Some ''12345678'' \<and>
   optionalAuthenticate dev_env 0 key8_request =
     Next (key8_request\<lparr>auth := Some \<lparr>apiKey = Some ''12345678'', authenticated = True, timestamp = 0\<rparr>\<rparr>)"
proof -
  have a: "NODE_ENV dev_env = Some ''development''" by (simp add: dev_env_def)
  have b: "\<not> truthy_str (API_KEY dev_env)" by (simp add: dev_env_def)
  have g: "getApiKeyFromRequest key8_request = Some ''12345678''"
    by (simp add: getApiKeyFromRequest_def locations_def key8_request_def empty_request_def
        header_def get_prop_def trim_def js_whitespace_def)
  show ?thesis
    using a b g dev_mode_key_length[OF a b, of "''12345678''" key8_request "''12345678''" 0]
      dev_mode_key_length[OF a b, of "''1234567''" key8_request "''12345678''" 0]
    by simp
qed

text \<open>
  Claim C4 as stated fails for \<^verbatim>\<open>authenticateRequest\<close>: a request that presents
  a key of length 8 leaves it with no \<^verbatim>\<open>auth\<close> property, so
  \<^verbatim>\<open>authenticated: true\<close> is not attached, and a request that presents a key of
  length 7 is admitted all the same.
\<close>

theorem authenticateRequest_dev_key_not_attached:
  "getApiKeyFromRequest key8_request = Some ''12345678'' \<and> length ''12345678'' = 8 \<and>
   authenticateRequest dev_env 0 key8_request = Next key8_request \<and> auth key8_request = None \<and>
   getApiKeyFromRequest key7_request = Some ''1234567'' \<and>
   authenticateRequest dev_env 0 key7_request = Next key7_request"
  by (simp add: authenticateRequest_def dev_env_def getApiKeyFromRequest_def locations_def
      key8_request_def key7_request_def empty_request_def header_def get_prop_def trim_def
      js_whitespace_def)

section \<open>The validator: faults, accumulation and satisfaction\<close>

subsection \<open>The checks of one field\<close>

lemma validateType_known: "known_kind k \<Longrightarrow> validateType v k = has_kind k v"
proof (cases v)
  case (JNum x)
  assume "known_kind k"
  then show ?thesis using JNum
    by (cases x) (auto simp: known_kind_def has_kind_def frac_def)
qed (auto simp: known_kind_def has_kind_def)

lemma validateType_unknown: "\<not> known_kind k \<Longrightarrow> validateType v k"
  by (simp add: known_kind_def)

lemma kind_known_nonempty: "known_kind k \<Longrightarrow> k \<noteq> []"
  by (auto simp: known_kind_def)

lemma string_checks_empty:
  assumes "string_checks pf n r s = Inr es" and "maxLength r \<noteq> Some 0"
  shows "es = [] \<longleftrightarrow> string_ok pf r s"
  using assms
  by (auto simp: string_checks_def string_ok_def pattern_test_def isValidUrl_def Let_def
      split: option.splits if_splits sum.splits)

lemma exn_SyntaxError: "(e::exn) = SyntaxError"
  by (cases e)

lemma string_checks_throws:
  "string_checks pf n r s = Inl e \<longleftrightarrow>
     (\<exists>p. pattern r = Some p \<and> p \<noteq> [] \<and> RegExp pf p = None)"
proof (cases "pattern r")
  case None
  then show ?thesis by (simp add: string_checks_def Let_def)
next
  case (Some p)
  then show ?thesis
    by (cases "RegExp pf p") (simp_all add: string_checks_def Let_def exn_SyntaxError[of e])
qed

lemma array_checks_empty:
  "maxItems r \<noteq> Some 0 \<Longrightarrow> array_checks n r xs = [] \<longleftrightarrow> array_ok r xs"
  by (auto simp: array_checks_def array_ok_def split: option.splits)

lemma has_property_own: "\<not> inherited_name name \<Longrightarrow> has_property obj name \<longleftrightarrow> name \<in> fst ` set obj"
  by (auto simp: has_property_def inherited_name_def)

lemma get_prop_own: "\<not> inherited_name name \<Longrightarrow> get_prop obj name = own_prop obj name"
  by (auto simp: get_prop_def own_prop_def inherited_name_def split: option.splits)

lemma object_checks_empty:
  assumes "case requiredFields r of None \<Rightarrow> True
           | Some names \<Rightarrow> list_all (\<lambda>name. \<not> inherited_name name) names"
  shows "object_checks n r obj = [] \<longleftrightarrow> object_ok r obj"
proof (cases "requiredFields r")
  case None
  then show ?thesis by (simp add: object_checks_def object_ok_def)
next
  case (Some names)
  with assms have "\<forall>name \<in> set names. has_property obj name \<longleftrightarrow> name \<in> fst ` set obj"
    by (simp add: list_all_iff has_property_own)
  then show ?thesis
    by (auto simp: object_checks_def object_ok_def Some filter_empty_conv list_all_iff)
qed

lemma check_field_empty:
  assumes "check_field pf n r v = Inr es"
    and "maxLength r \<noteq> Some 0" and "maxItems r \<noteq> Some 0"
    and "case requiredFields r of None \<Rightarrow> True
         | Some names \<Rightarrow> list_all (\<lambda>name. \<not> inherited_name name) names"
  shows "es = [] \<longleftrightarrow> satisfies pf r v"
proof (cases "v = JUndefined \<or> v = JNull")
  case True
  then show ?thesis using assms(1)
    by (auto simp: check_field_def satisfies_def split: if_splits)
next
  case present: False
  show ?thesis
  proof (cases "required r \<and> v = JStr []")
    case True
    then show ?thesis using assms(1) by (auto simp: check_field_def satisfies_def)
  next
    case nonempty: False
    define kind_bad where
      "kind_bad = (case type r of None \<Rightarrow> False | Some t \<Rightarrow> t \<noteq> [] \<and> \<not> validateType v t)"
    have kind: "kind_bad \<longleftrightarrow>
      \<not> (case type r of None \<Rightarrow> True | Some k \<Rightarrow> if known_kind k then has_kind k v else True)"
      unfolding kind_bad_def
      by (cases "type r")
        (auto simp: validateType_known kind_known_nonempty dest: validateType_unknown
          simp del: validateType.simps)
    show ?thesis
    proof (cases kind_bad)
      case True
      then have "check_field pf n r v \<noteq> Inr []"
        using present nonempty by (auto simp: check_field_def kind_bad_def)
      moreover have "\<exists>e. check_field pf n r v = Inr [e]"
        using True present nonempty by (auto simp: check_field_def kind_bad_def)
      ultimately have "es \<noteq> []" using assms(1) by auto
      moreover have "\<not> satisfies pf r v"
        using True kind present nonempty by (auto simp: satisfies_def)
      ultimately show ?thesis by simp
    next
      case False
      then have not_bad: "\<not> (case type r of None \<Rightarrow> False | Some t \<Rightarrow> t \<noteq> [] \<and> \<not> validateType v t)"
        by (simp add: kind_bad_def)
      have rest: "check_field pf n r v =
        (case v of
           JStr s \<Rightarrow>
             if type r = Some ''string'' then string_checks pf n r s else Inr []
         | JArr xs \<Rightarrow>
             if type r = Some ''array'' then Inr (array_checks n r xs) else Inr []
         | JObj obj \<Rightarrow>
             if type r = Some ''object'' then Inr (object_checks n r obj) else Inr []
         | _ \<Rightarrow> Inr [])"
      proof -
        have c1: "(required r \<and> (v = JUndefined \<or> v = JNull \<or> v = JStr [])) = False"
          using present nonempty by blast
        have c2: "(\<not> required r \<and> (v = JUndefined \<or> v = JNull)) = False"
          using present by blast
        show ?thesis
          unfolding check_field_def c1 c2 using not_bad by (simp del: validateType.simps)
      qed
      have sat: "satisfies pf r v =
        (case v of
           JStr s \<Rightarrow> if type r = Some ''string'' then string_ok pf r s else True
         | JArr xs \<Rightarrow> if type r = Some ''array'' then array_ok r xs else True
         | JObj obj \<Rightarrow> if type r = Some ''object'' then object_ok r obj else True
         | _ \<Rightarrow> True)"
      proof -
        have c1: "(v = JUndefined \<or> v = JNull) = False" using present by blast
        have c2: "(required r \<and> v = JStr []) = False" using nonempty by blast
        show ?thesis
          unfolding satisfies_def c1 c2 using False kind by simp
      qed
      show ?thesis
      proof (cases v)
        case (JStr s)
        then show ?thesis
          using assms(1,2) rest sat string_checks_empty[of pf n r s es]
          by (auto split: if_splits)
      next
        case (JArr xs)
        then show ?thesis
          using assms(1,3) rest sat array_checks_empty[of r n xs]
          by (auto split: if_splits)
      next
        case (JObj obj)
        then show ?thesis
          using assms(1) rest sat object_checks_empty[OF assms(4), of n obj]
          by (auto split: if_splits)
      qed (use assms(1) rest sat in auto)
    qed
  qed
qed

lemma check_field_branches:
  "check_field pf n r v =
     (if required r \<and> (v = JUndefined \<or> v = JNull \<or> v = JStr []) then Inr [required_error n]
      else if \<not> required r \<and> (v = JUndefined \<or> v = JNull) then Inr []
      else if (case type r of None \<Rightarrow> False | Some t \<Rightarrow> t \<noteq> [] \<and> \<not> validateType v t)
      then Inr [\<lparr>field = n,
                 message = n @ '' must be of type '' @ (case type r of Some t \<Rightarrow> t | None \<Rightarrow> []),
                 code = ''INVALID_TYPE'',
                 extra = [(''expected'', (case type r of Some t \<Rightarrow> JStr t | None \<Rightarrow> JUndefined)),
                          (''actual'', JStr (typeof v))]\<rparr>]
      else
        (case v of
           JStr s \<Rightarrow> if type r = Some ''string'' then string_checks pf n r s else Inr []
         | JArr xs \<Rightarrow> if type r = Some ''array'' then Inr (array_checks n r xs) else Inr []
         | JObj obj \<Rightarrow> if type r = Some ''object'' then Inr (object_checks n r obj) else Inr []
         | _ \<Rightarrow> Inr []))"
  unfolding check_field_def required_error_def by (rule refl)

lemma check_field_throws:
  "check_field pf n r v = Inl SyntaxError \<longleftrightarrow>
     (case v of
        JStr s \<Rightarrow>
          type r = Some ''string'' \<and> \<not> (required r \<and> s = []) \<and>
          (case pattern r of
             None \<Rightarrow> False
           | Some p \<Rightarrow> p \<noteq> [] \<and> (case RegExp pf p of None \<Rightarrow> True | Some test \<Rightarrow> False))
      | _ \<Rightarrow> False)"
proof (cases v)
  case (JStr s)
  have thr: "string_checks pf n r s = Inl SyntaxError \<longleftrightarrow>
     (case pattern r of
        None \<Rightarrow> False
      | Some p \<Rightarrow> p \<noteq> [] \<and> (case RegExp pf p of None \<Rightarrow> True | Some test \<Rightarrow> False))"
    using string_checks_throws[of pf n r s SyntaxError]
    by (auto split: option.splits)
  show ?thesis
  proof (cases "type r = Some ''string''")
    case True
    show ?thesis
      unfolding check_field_branches using JStr True thr by simp
  next
    case False
    then show ?thesis
      unfolding check_field_branches using JStr by (simp del: validateType.simps)
  qed
qed (simp_all add: check_field_branches del: validateType.simps)





subsection \<open>The loop over the schema\<close>

lemma check_field_bad_pattern:
  "check_field pf n r (get_prop P n) = Inl SyntaxError \<longleftrightarrow> bad_pattern_reached pf P (n, r)"
  by (cases "get_prop P n") (simp_all add: check_field_throws bad_pattern_reached_def)

lemma validate_fields_throws:
  "validate_fields pf S P [] = Inl SyntaxError \<longleftrightarrow> list_ex (bad_pattern_reached pf P) S"
proof (induction S)
  case Nil
  then show ?case by simp
next
  case (Cons a S)
  obtain n r where a: "a = (n, r)" by (cases a)
  show ?case
  proof (cases "check_field pf n r (get_prop P n)")
    case (Inl e)
    then have "check_field pf n r (get_prop P n) = Inl SyntaxError"
      by (simp add: exn_SyntaxError[of e])
    then show ?thesis
      using check_field_bad_pattern[of pf n r P] unfolding a validate_fields_Cons by simp
  next
    case (Inr es)
    then have "\<not> bad_pattern_reached pf P (n, r)"
      using check_field_bad_pattern[of pf n r P] by simp
    moreover have "validate_fields pf ((n, r) # S) P [] = Inl SyntaxError \<longleftrightarrow>
        validate_fields pf S P [] = Inl SyntaxError"
      unfolding validate_fields_Cons using Inr by (auto split: sum.splits)
    ultimately show ?thesis using Cons.IH by (simp add: a)
  qed
qed

lemma validate_fields_returns:
  "\<not> list_ex (bad_pattern_reached pf P) S \<Longrightarrow> \<exists>errs. validate_fields pf S P [] = Inr errs"
proof (cases "validate_fields pf S P []")
  case (Inl e)
  assume "\<not> list_ex (bad_pattern_reached pf P) S"
  with Inl validate_fields_throws[of pf S P] show ?thesis
    by (simp add: exn_SyntaxError[of e])
next
  case (Inr errs)
  then show ?thesis by blast
qed

lemma patterns_compile_not_reached:
  "patterns_compile pf S \<Longrightarrow> \<not> list_ex (bad_pattern_reached pf P) S"
  by (auto simp: patterns_compile_def bad_pattern_reached_def list_all_iff list_ex_iff
      split: jsval.splits option.splits)


lemma validate_fields_empty_iff:
  "upper_bounds_positive S \<Longrightarrow> no_inherited_names S \<Longrightarrow> validate_fields pf S P [] = Inr errs \<Longrightarrow>
     errs = [] \<longleftrightarrow> schema_satisfied pf S P"
proof (induction S arbitrary: errs)
  case Nil
  then show ?case by (simp add: schema_satisfied_def)
next
  case (Cons a S)
  obtain n r where a: "a = (n, r)" by (cases a)
  have "(case check_field pf n r (get_prop P n) of
        Inl e \<Rightarrow> Inl e
      | Inr es \<Rightarrow> (case validate_fields pf S P [] of Inl e \<Rightarrow> Inl e | Inr es' \<Rightarrow> Inr (es @ es'))) =
      Inr errs"
    using Cons.prems(3) unfolding a validate_fields_Cons .
  then obtain es errs' where
    es: "check_field pf n r (get_prop P n) = Inr es" and
    errs': "validate_fields pf S P [] = Inr errs'" and
    errs: "errs = es @ errs'"
    by (auto split: sum.splits)
  from Cons.prems(1) have b: "maxLength r \<noteq> Some 0" "maxItems r \<noteq> Some 0" "upper_bounds_positive S"
    by (simp_all add: upper_bounds_positive_def a)
  from Cons.prems(2) have i: "\<not> inherited_name n"
    "case requiredFields r of None \<Rightarrow> True | Some names \<Rightarrow> list_all (\<lambda>name. \<not> inherited_name name) names"
    "no_inherited_names S"
    by (simp_all add: no_inherited_names_def a)
  have "es = [] \<longleftrightarrow> satisfies pf r (own_prop P n)"
    using check_field_empty[OF es b(1,2) i(2)] get_prop_own[OF i(1), of P] by simp
  moreover have "errs' = [] \<longleftrightarrow> schema_satisfied pf S P"
    using Cons.IH[OF b(3) i(3) errs'] .
  ultimately show ?case
    by (simp add: errs a schema_satisfied_def)
qed


lemma validateRequest_cases:
  "validateRequest pf S req =
     (case validate_fields pf S (body req) [] of
        Inl e \<Rightarrow> Respond validation_fault
      | Inr errs \<Rightarrow> if errs = [] then Next req else Respond (validation_failed errs))"
  by (auto simp: validateRequest_def validation_fault_def validation_failed_def split: sum.splits)

subsection \<open>Totality and the empty result\<close>

text \<open>
  Claim C2, as the code has it. Validation is a function of the schema and the payload
  (and of the platform's \<^verbatim>\<open>RegExp\<close> and \<^verbatim>\<open>URL\<close>), so it is deterministic.
  It does not always produce an error list. The loop throws exactly when it reaches the
  pattern check of a string rule whose non-empty pattern is not a well-formed regular
  expression, with a string value, and exactly then the middleware answers with the
  status 500 of its \<^verbatim>\<open>catch\<close> block. In every other case, in particular when
  every non-empty pattern of the schema is well formed, the loop returns a list, and the
  middleware calls \<^verbatim>\<open>next()\<close> when the list is empty and answers with status
  400 and the list otherwise. Whenever a list is returned, no \<^verbatim>\<open>maxLength\<close> or
  \<^verbatim>\<open>maxItems\<close> of the schema is zero, and no field name or required subfield name
  of the schema is the name of a property that every object inherits
  (\<^verbatim>\<open>constructor\<close>, \<^verbatim>\<open>toString\<close>, ...), the list is empty if and only if
  the payload satisfies every rule of the schema.
\<close>

theorem validate_total_and_sound:
  "(validate_fields pf S P [] = Inl SyntaxError \<longleftrightarrow> list_ex (bad_pattern_reached pf P) S) \<and>
   (validateRequest pf S req = Respond validation_fault \<longleftrightarrow>
      list_ex (bad_pattern_reached pf (body req)) S) \<and>
   status validation_fault = 500 \<and>
   (\<not> list_ex (bad_pattern_reached pf P) S \<longrightarrow> (\<exists>errs. validate_fields pf S P [] = Inr errs)) \<and>
   (patterns_compile pf S \<longrightarrow> \<not> list_ex (bad_pattern_reached pf P) S) \<and>
   (validate_fields pf S P [] = Inr errs \<and> upper_bounds_positive S \<and> no_inherited_names S \<longrightarrow>
      (errs = [] \<longleftrightarrow> schema_satisfied pf S P)) \<and>
   (validate_fields pf S (body req) [] = Inr errs \<longrightarrow>
      validateRequest pf S req = (if errs = [] then Next req else Respond (validation_failed errs)))"
proof (intro conjI impI)
  show "validate_fields pf S P [] = Inl SyntaxError \<longleftrightarrow> list_ex (bad_pattern_reached pf P) S"
    by (rule validate_fields_throws)
next
  show "validateRequest pf S req = Respond validation_fault \<longleftrightarrow>
      list_ex (bad_pattern_reached pf (body req)) S"
  proof (cases "validate_fields pf S (body req) []")
    case (Inl e)
    then have "validate_fields pf S (body req) [] = Inl SyntaxError"
      by (simp add: exn_SyntaxError[of e])
    then show ?thesis
      using validate_fields_throws[of pf S "body req"] by (simp add: validateRequest_cases)
  next
    case (Inr errs')
    then have "\<not> list_ex (bad_pattern_reached pf (body req)) S"
      using validate_fields_throws[of pf S "body req"] by simp
    moreover have "validateRequest pf S req \<noteq> Respond validation_fault"
      using Inr by (simp add: validateRequest_cases validation_fault_def validation_failed_def)
    ultimately show ?thesis by simp
  qed
next
  show "status validation_fault = 500" by (simp add: validation_fault_def)
next
  assume "\<not> list_ex (bad_pattern_reached pf P) S"
  then show "\<exists>errs. validate_fields pf S P [] = Inr errs" by (rule validate_fields_returns)
next
  assume "patterns_compile pf S"
  then show "\<not> list_ex (bad_pattern_reached pf P) S" by (rule patterns_compile_not_reached)
next
  assume "validate_fields pf S P [] = Inr errs \<and> upper_bounds_positive S \<and> no_inherited_names S"
  then show "errs = [] \<longleftrightarrow> schema_satisfied pf S P"
    using validate_fields_empty_iff by blast
next
  assume "validate_fields pf S (body req) [] = Inr errs"
  then show "validateRequest pf S req = (if errs = [] then Next req else Respond (validation_failed errs))"
    by (simp add: validateRequest_cases)
qed

text \<open>Evaluations on the sample platform.\<close>

lemma sample_RegExp_a: "RegExp sample_platform ''^a'' = Some (\<lambda>s. take 1 s = ''a'')"
  by (simp add: sample_platform_def)

lemma sample_RegExp_paren: "RegExp sample_platform ''('' = None"
  by (simp add: sample_platform_def)

lemma name_rule_simps:
  "type name_rule = Some ''string''" "required name_rule" "minLength name_rule = Some 3"
  "maxLength name_rule = None" "pattern name_rule = Some ''^a''" "format name_rule = None"
  "minItems name_rule = None" "maxItems name_rule = None" "requiredFields name_rule = None"
  by (simp_all add: name_rule_def no_rule_def)

lemma bad_pattern_rule_simps:
  "type bad_pattern_rule = Some ''string''" "\<not> required bad_pattern_rule"
  "minLength bad_pattern_rule = None"
  "maxLength bad_pattern_rule = None" "pattern bad_pattern_rule = Some ''(''"
  "format bad_pattern_rule = None"
  "minItems bad_pattern_rule = None" "maxItems bad_pattern_rule = None"
  "requiredFields bad_pattern_rule = None"
  by (simp_all add: bad_pattern_rule_def no_rule_def)

lemma check_name_abc:
  "check_field sample_platform ''name'' name_rule (JStr ''abc'') = Inr []"
  by (simp add: check_field_def string_checks_def name_rule_simps sample_RegExp_a)

lemma check_bad_pattern:
  "check_field sample_platform ''x'' bad_pattern_rule (JStr ''a'') = Inl SyntaxError"
  by (simp add: check_field_def string_checks_def bad_pattern_rule_simps sample_RegExp_paren)



text \<open>The theorem at a schema with the well-formed pattern \<^verbatim>\<open>^a\<close> and a payload
  that satisfies it, and at a schema with the malformed pattern \<^verbatim>\<open>(\<close>.\<close>

theorem validate_total_and_sound_witness:
  "patterns_compile sample_platform [(''name'', name_rule)] \<and>
   upper_bounds_positive [(''name'', name_rule)] \<and>
   no_inherited_names [(''name'', name_rule)] \<and>
   body name_request = [(''name'', JStr ''abc'')] \<and>
   \<not> list_ex (bad_pattern_reached sample_platform [(''name'', JStr ''abc'')]) [(''name'', name_rule)] \<and>
   validate_fields sample_platform [(''name'', name_rule)] [(''name'', JStr ''abc'')] [] = Inr [] \<and>
   schema_satisfied sample_platform [(''name'', name_rule)] [(''name'', JStr ''abc'')] \<and>
   validateRequest sample_platform [(''name'', name_rule)] name_request = Next name_request \<and>
   body bad_request = [(''x'', JStr ''a'')] \<and>
   list_ex (bad_pattern_reached sample_platform [(''x'', JStr ''a'')]) [(''x'', bad_pattern_rule)] \<and>
   validate_fields sample_platform [(''x'', bad_pattern_rule)] [(''x'', JStr ''a'')] [] = Inl SyntaxError \<and>
   validateRequest sample_platform [(''x'', bad_pattern_rule)] bad_request = Respond validation_fault"
proof -
  have c: "patterns_compile sample_platform [(''name'', name_rule)]"
    by (simp add: patterns_compile_def name_rule_simps sample_RegExp_a)
  have u: "upper_bounds_positive [(''name'', name_rule)]"
    by (simp add: upper_bounds_positive_def name_rule_simps)
  have i: "no_inherited_names [(''name'', name_rule)]"
    by (simp add: no_inherited_names_def inherited_name_def name_rule_simps)
  have b: "body name_request = [(''name'', JStr ''abc'')]"
    by (simp add: name_request_def empty_request_def)
  have v: "validate_fields sample_platform [(''name'', name_rule)] [(''name'', JStr ''abc'')] [] = Inr []"
    by (simp add: get_prop_def check_name_abc)
  have b': "body bad_request = [(''x'', JStr ''a'')]"
    by (simp add: bad_request_def empty_request_def)
  have r: "list_ex (bad_pattern_reached sample_platform [(''x'', JStr ''a'')]) [(''x'', bad_pattern_rule)]"
    by (simp add: bad_pattern_reached_def get_prop_def bad_pattern_rule_simps sample_RegExp_paren)
  show ?thesis
    using c u i b v b' r
      validate_total_and_sound[of sample_platform "[(''name'', name_rule)]"
        "[(''name'', JStr ''abc'')]" name_request "[]"]
      validate_total_and_sound[of sample_platform "[(''x'', bad_pattern_rule)]"
        "[(''x'', JStr ''a'')]" bad_request "[]"]
    by simp
qed

text \<open>
  Claim C2 as stated fails on a schema with a malformed pattern: for the rule
  \<^verbatim>\<open>{ type: 'string', pattern: '(' }\<close> and the payload \<^verbatim>\<open>{ x: 'a' }\<close> the
  loop throws at \<^verbatim>\<open>new RegExp('(')\<close>; no error list is produced, and the
  middleware answers with status 500.
\<close>

theorem validate_throws_on_bad_pattern:
  "body bad_request = [(''x'', JStr ''a'')] \<and>
   validate_fields sample_platform [(''x'', bad_pattern_rule)] [(''x'', JStr ''a'')] [] = Inl SyntaxError \<and>
   validateRequest sample_platform [(''x'', bad_pattern_rule)] bad_request = Respond validation_fault \<and>
   status validation_fault = 500"
  by (simp add: validateRequest_def get_prop_def check_bad_pattern bad_request_def empty_request_def
      validation_fault_def)

subsection \<open>Accumulation of errors\<close>








section \<open>The order of admission\<close>















section \<open>The rate limiter\<close>

subsection \<open>The map operations and the clean-up loop\<close>

lemma map_of_Map_set: "map_of (Map_set k v m) = (map_of m)(k \<mapsto> v)"
  by (induction m) (auto simp: fun_eq_iff)

lemma map_of_Map_delete: "map_of (Map_delete k m) = (map_of m)(k := None)"
  by (induction m) (auto simp: Map_delete_def fun_eq_iff)

lemma keys_Map_set: "fst ` set (Map_set k v m) = insert k (fst ` set m)"
proof (induction m)
  case Nil
  then show ?case by simp
next
  case (Cons a m)
  obtain k' v' where a: "a = (k', v')" by (cases a)
  show ?case by (simp add: a Cons.IH insert_commute)
qed

lemma distinct_Map_set: "distinct (map fst m) \<Longrightarrow> distinct (map fst (Map_set k v m))"
proof (induction m)
  case Nil
  then show ?case by simp
next
  case (Cons a m)
  obtain k' v' where a: "a = (k', v')" by (cases a)
  show ?case
  proof (cases "k' = k")
    case True
    with Cons.prems show ?thesis by (simp add: a)
  next
    case False
    have "k' \<notin> fst ` set (Map_set k v m)"
      using Cons.prems False by (simp add: keys_Map_set a)
    with Cons False show ?thesis by (simp add: a)
  qed
qed

lemma distinct_Map_delete: "distinct (map fst m) \<Longrightarrow> distinct (map fst (Map_delete k m))"
  by (simp add: Map_delete_def distinct_map_filter)

text \<open>The invariant of the clean-up loop: the entries still to visit are entries of the
  map as it stands, and every key already visited holds its pruned list or is gone.\<close>

lemma cleanup_loop:
  assumes "distinct (map fst m)" and "distinct (map fst es)"
    and "\<forall>entry \<in> set es. map_of m (fst entry) = Some (snd entry)"
  shows "distinct (map fst (cleanup ws es m)) \<and>
     (\<forall>k. map_of (cleanup ws es m) k =
        (if k \<in> fst ` set es
         then (case map_of m k of
                 None \<Rightarrow> None
               | Some ts \<Rightarrow> if filter (\<lambda>t. t > ws) ts = [] then None
                           else Some (filter (\<lambda>t. t > ws) ts))
         else map_of m k))"
  using assms
proof (induction es arbitrary: m)
  case Nil
  then show ?case by simp
next
  case (Cons a es)
  obtain key ts where a: "a = (key, ts)" by (cases a)
  define m' where "m' = (if length (filter (\<lambda>t. t > ws) ts) = 0 then Map_delete key m
     else Map_set key (filter (\<lambda>t. t > ws) ts) m)"
  have step: "cleanup ws (a # es) m = cleanup ws es m'"
    by (simp add: a m'_def Let_def)
  have key: "map_of m key = Some ts" "key \<notin> fst ` set es"
    using Cons.prems by (auto simp: a)
  have m'_map: "map_of m' = (map_of m)(key :=
      (if filter (\<lambda>t. t > ws) ts = [] then None else Some (filter (\<lambda>t. t > ws) ts)))"
    by (simp add: m'_def map_of_Map_set map_of_Map_delete)
  have d': "distinct (map fst m')"
    using Cons.prems(1) by (simp add: m'_def distinct_Map_set distinct_Map_delete)
  have des: "distinct (map fst es)" using Cons.prems(2) by simp
  have ent: "\<forall>entry \<in> set es. map_of m' (fst entry) = Some (snd entry)"
  proof
    fix entry assume e: "entry \<in> set es"
    then have "fst entry \<noteq> key" using key(2) by auto
    moreover have "map_of m (fst entry) = Some (snd entry)" using Cons.prems(3) e by simp
    ultimately show "map_of m' (fst entry) = Some (snd entry)" by (simp add: m'_map)
  qed
  from Cons.IH[OF d' des ent] have IH:
    "distinct (map fst (cleanup ws es m'))"
    "\<And>k. map_of (cleanup ws es m') k =
        (if k \<in> fst ` set es
         then (case map_of m' k of
                 None \<Rightarrow> None
               | Some ts \<Rightarrow> if filter (\<lambda>t. t > ws) ts = [] then None
                           else Some (filter (\<lambda>t. t > ws) ts))
         else map_of m' k)"
    by auto
  show ?case
  proof (intro conjI allI)
    show "distinct (map fst (cleanup ws (a # es) m))" using IH(1) step by simp
  next
    fix k
    show "map_of (cleanup ws (a # es) m) k =
        (if k \<in> fst ` set (a # es)
         then (case map_of m k of
                 None \<Rightarrow> None
               | Some ts \<Rightarrow> if filter (\<lambda>t. t > ws) ts = [] then None
                           else Some (filter (\<lambda>t. t > ws) ts))
         else map_of m k)"
    proof -
      have "map_of (cleanup ws (a # es) m) k = map_of (cleanup ws es m') k"
        by (simp only: step)
      also have "\<dots> = (if k \<in> fst ` set es
         then (case map_of m' k of
                 None \<Rightarrow> None
               | Some ts \<Rightarrow> if filter (\<lambda>t. t > ws) ts = [] then None
                           else Some (filter (\<lambda>t. t > ws) ts))
         else map_of m' k)"
        by (rule IH(2))
      finally show ?thesis
        using key by (cases "k = key") (auto simp: m'_map a)
    qed
  qed
qed

lemma cleanup_map_of:
  assumes "distinct (map fst m)"
  shows "map_of (cleanup ws m m) k =
     (case map_of m k of
        None \<Rightarrow> None
      | Some ts \<Rightarrow> if filter (\<lambda>t. t > ws) ts = [] then None else Some (filter (\<lambda>t. t > ws) ts))"
proof -
  have "\<forall>entry \<in> set m. map_of m (fst entry) = Some (snd entry)"
    using assms by simp
  from cleanup_loop[OF assms assms this, of ws]
  have "map_of (cleanup ws m m) k =
        (if k \<in> fst ` set m
         then (case map_of m k of
                 None \<Rightarrow> None
               | Some ts \<Rightarrow> if filter (\<lambda>t. t > ws) ts = [] then None
                           else Some (filter (\<lambda>t. t > ws) ts))
         else map_of m k)"
    by blast
  moreover have "k \<notin> fst ` set m \<Longrightarrow> map_of m k = None"
    by (simp add: map_of_eq_None_iff)
  ultimately show ?thesis
    by (cases "k \<in> fst ` set m") simp_all
qed

lemma cleanup_distinct: "distinct (map fst m) \<Longrightarrow> distinct (map fst (cleanup ws m m))"
  using cleanup_loop[of m m ws] by simp

lemma recent_cleanup:
  assumes "distinct (map fst m)"
  shows "recent ws' (cleanup ws m m) k = filter (\<lambda>t. t > ws') (recent ws m k)"
proof (cases "map_of m k")
  case None
  then show ?thesis by (simp add: recent_def Map_get_def cleanup_map_of[OF assms])
next
  case (Some ts)
  then show ?thesis
    by (cases "filter (\<lambda>t. t > ws) ts = []")
      (simp_all add: recent_def Map_get_def cleanup_map_of[OF assms])
qed

lemma recent_Map_set: "recent ws' (Map_set k v m) k = filter (\<lambda>t. t > ws') v"
  by (simp add: recent_def Map_get_def map_of_Map_set)

lemma filter_recent: "filter (\<lambda>t. t > ws) (recent ws m k) = recent ws m k"
  by (simp add: recent_def split: option.splits)

lemma limiter_admits:
  assumes "distinct (map fst st)" and "rate_key req = k"
    and "int (length (recent (now - windowMs) st k)) < maxRequests"
  shows "createApiKeyRateLimit windowMs maxRequests st now req =
     (Map_set k (recent (now - windowMs) st k @ [now]) (cleanup (now - windowMs) st st), Next req)"
proof -
  have "filter (\<lambda>t. t > now - windowMs)
      (case Map_get (cleanup (now - windowMs) st st) k of None \<Rightarrow> [] | Some ts \<Rightarrow> ts) =
      recent (now - windowMs) st k"
    using recent_cleanup[OF assms(1), of "now - windowMs" "now - windowMs" k] filter_recent[of "now - windowMs" st k]
    by (simp add: recent_def split: option.splits)
  then show ?thesis
    using assms(2,3) by (simp add: createApiKeyRateLimit_def Let_def)
qed

lemma limiter_rejects:
  assumes "distinct (map fst st)" and "rate_key req = k"
    and "maxRequests \<le> int (length (recent (now - windowMs) st k))"
  shows "createApiKeyRateLimit windowMs maxRequests st now req =
     (cleanup (now - windowMs) st st, Respond (rate_limit_exceeded windowMs maxRequests))"
proof -
  have "filter (\<lambda>t. t > now - windowMs)
      (case Map_get (cleanup (now - windowMs) st st) k of None \<Rightarrow> [] | Some ts \<Rightarrow> ts) =
      recent (now - windowMs) st k"
    using recent_cleanup[OF assms(1), of "now - windowMs" "now - windowMs" k] filter_recent[of "now - windowMs" st k]
    by (simp add: recent_def split: option.splits)
  then show ?thesis
    using assms(2,3) by (simp add: createApiKeyRateLimit_def Let_def rate_limit_exceeded_def)
qed

lemma limiter_distinct:
  assumes "distinct (map fst st)"
  shows "distinct (map fst (fst (createApiKeyRateLimit windowMs maxRequests st now req)))"
  using assms by (simp add: createApiKeyRateLimit_def Let_def cleanup_distinct distinct_Map_set)

subsection \<open>What a call leaves in the map\<close>

lemma recent_within: "t \<in> set (recent ws m k) \<Longrightarrow> ws < t"
  by (auto simp: recent_def split: option.splits)

lemma cleanup_entry:
  assumes "distinct (map fst m)" and "map_of (cleanup ws m m) k = Some ts"
  shows "ts \<noteq> [] \<and> (\<forall>t \<in> set ts. ws < t)"
proof (cases "map_of m k")
  case None
  with assms show ?thesis by (simp add: cleanup_map_of)
next
  case (Some ts0)
  with assms have "filter (\<lambda>t. t > ws) ts0 \<noteq> []" "ts = filter (\<lambda>t. t > ws) ts0"
    by (auto simp: cleanup_map_of split: if_splits)
  then show ?thesis by auto
qed

lemma cleanup_evicts:
  assumes "distinct (map fst m)" and "map_of m k = Some ts" and "\<forall>t \<in> set ts. t \<le> ws"
  shows "map_of (cleanup ws m m) k = None"
proof -
  have "filter (\<lambda>t. t > ws) ts = []"
    using assms(3) by (auto simp: filter_empty_conv)
  then show ?thesis using assms(1,2) by (simp add: cleanup_map_of)
qed

text \<open>
  Claim C9, as the code has it. The map of a limiter has one entry for each key: this
  holds for the empty map a limiter starts with and is kept by every call. For a
  limiter whose window has positive length (\<^verbatim>\<open>windowMs > 0\<close>), after every call
  every key in the map has a non-empty list of time stamps, all of them later than
  \<^verbatim>\<open>now - windowMs\<close>. Consequently a key whose time stamps are all
  \<^verbatim>\<open>now - windowMs\<close> or older is no longer a key of the map after a call made for
  any other key: its entry is deleted, not just skipped.
\<close>

theorem limiter_store_invariant:
  assumes "distinct (map fst st)" and "0 < windowMs"
    and "createApiKeyRateLimit windowMs maxRequests st now req = (st', out)"
  shows "distinct (map fst new_requests) \<and> distinct (map fst st') \<and>
     (\<forall>entry \<in> set st'. snd entry \<noteq> [] \<and> (\<forall>t \<in> set (snd entry). now - windowMs < t)) \<and>
     (\<forall>k ts. k \<noteq> rate_key req \<and> Map_get st k = Some ts \<and> (\<forall>t \<in> set ts. t \<le> now - windowMs) \<longrightarrow>
        Map_get st' k = None \<and> k \<notin> fst ` set st')"
proof -
  define ws where "ws = now - windowMs"
  define k0 where "k0 = rate_key req"
  define cleaned where "cleaned = cleanup ws st st"
  have d: "distinct (map fst st')"
    using limiter_distinct[OF assms(1), of windowMs maxRequests now req] assms(3) by simp
  have st': "st' = cleaned \<or> st' = Map_set k0 (recent ws st k0 @ [now]) cleaned"
  proof (cases "int (length (recent ws st k0)) < maxRequests")
    case True
    from limiter_admits[OF assms(1) k0_def[symmetric], of now windowMs maxRequests] True assms(3)
    show ?thesis by (simp add: ws_def cleaned_def)
  next
    case False
    then have "maxRequests \<le> int (length (recent ws st k0))" by simp
    from limiter_rejects[OF assms(1) k0_def[symmetric], of maxRequests now windowMs] this assms(3)
    show ?thesis by (simp add: ws_def cleaned_def)
  qed
  have lookup: "map_of st' k = Some ts \<Longrightarrow> ts \<noteq> [] \<and> (\<forall>t \<in> set ts. ws < t)" for k ts
  proof -
    assume a: "map_of st' k = Some ts"
    from st' show ?thesis
    proof
      assume "st' = cleaned"
      with a show ?thesis using cleanup_entry[OF assms(1), of ws k ts] by (simp add: cleaned_def)
    next
      assume s: "st' = Map_set k0 (recent ws st k0 @ [now]) cleaned"
      show ?thesis
      proof (cases "k = k0")
        case True
        with a s have "ts = recent ws st k0 @ [now]" by (simp add: map_of_Map_set)
        moreover have "ws < now" using assms(2) by (simp add: ws_def)
        ultimately show ?thesis using recent_within[of _ ws st k0] by auto
      next
        case False
        with a s have "map_of cleaned k = Some ts" by (simp add: map_of_Map_set)
        then show ?thesis using cleanup_entry[OF assms(1), of ws k ts] by (simp add: cleaned_def)
      qed
    qed
  qed
  have entries: "\<forall>entry \<in> set st'. snd entry \<noteq> [] \<and> (\<forall>t \<in> set (snd entry). now - windowMs < t)"
  proof
    fix entry assume "entry \<in> set st'"
    then have "map_of st' (fst entry) = Some (snd entry)" using d by simp
    from lookup[OF this] show "snd entry \<noteq> [] \<and> (\<forall>t \<in> set (snd entry). now - windowMs < t)"
      by (simp add: ws_def)
  qed
  have gone: "\<forall>k ts. k \<noteq> rate_key req \<and> Map_get st k = Some ts \<and> (\<forall>t \<in> set ts. t \<le> now - windowMs) \<longrightarrow>
        Map_get st' k = None \<and> k \<notin> fst ` set st'"
  proof (intro allI impI)
    fix k ts
    assume h: "k \<noteq> rate_key req \<and> Map_get st k = Some ts \<and> (\<forall>t \<in> set ts. t \<le> now - windowMs)"
    then have "map_of cleaned k = None"
      using cleanup_evicts[OF assms(1), of k ts ws] by (simp add: cleaned_def ws_def Map_get_def)
    moreover have "map_of st' k = map_of cleaned k"
      using st' h by (auto simp: map_of_Map_set k0_def)
    ultimately have "map_of st' k = None" by simp
    then show "Map_get st' k = None \<and> k \<notin> fst ` set st'"
      by (simp add: Map_get_def map_of_eq_None_iff)
  qed
  have fresh: "distinct (map fst new_requests)" by (simp add: new_requests_def)
  show ?thesis using fresh d entries gone by blast
qed

text \<open>The theorem at a map that tracks a key last seen at time 0, a window of 1000 ms and
  a call from another address at time 5000.\<close>

theorem limiter_store_invariant_witness:
  "distinct (map fst stale_store) \<and> (0::int) < 1000 \<and>
   createApiKeyRateLimit 1000 3 stale_store 5000 empty_request = ([(''127.0.0.1'', [5000])], Next empty_request) \<and>
   ''10.0.0.9'' \<noteq> rate_key empty_request \<and> Map_get stale_store ''10.0.0.9'' = Some [0] \<and>
   Map_get [(''127.0.0.1'', [5000])] ''10.0.0.9'' = None \<and>
   ''10.0.0.9'' \<notin> fst ` set [(''127.0.0.1'', [5000::int])]"
proof -
  have d: "distinct (map fst stale_store)" by (simp add: stale_store_def)
  have w: "(0::int) < 1000" by simp
  have c: "createApiKeyRateLimit 1000 3 stale_store 5000 empty_request =
      ([(''127.0.0.1'', [5000])], Next empty_request)"
    by (simp add: createApiKeyRateLimit_def stale_store_def rate_key_def empty_request_def
        Map_delete_def Map_get_def)
  have k: "''10.0.0.9'' \<noteq> rate_key empty_request" by (simp add: rate_key_def empty_request_def)
  have g: "Map_get stale_store ''10.0.0.9'' = Some [0]" by (simp add: Map_get_def stale_store_def)
  show ?thesis
    using d w c k g limiter_store_invariant[OF d w c] by simp
qed

text \<open>
  Claim C9 as stated fails for a window of length zero: a new limiter created with
  \<^verbatim>\<open>windowMs = 0\<close> admits a call at time 5000 and leaves the key with the one
  time stamp 5000, which is not greater than \<^verbatim>\<open>now - windowMs = 5000\<close>.
\<close>

theorem limiter_window_zero:
  "createApiKeyRateLimit 0 3 new_requests 5000 empty_request =
     ([(''127.0.0.1'', [5000])], Next empty_request) \<and>
   \<not> ((5000::int) - 0 < 5000)"
  by (simp add: createApiKeyRateLimit_def new_requests_def rate_key_def empty_request_def
      Map_get_def)

subsection \<open>Three requests per second\<close>

text \<open>
  Claim C8. Take a limiter with \<^verbatim>\<open>windowMs = 1000\<close> and
  \<^verbatim>\<open>maxRequests = 3\<close> whose map does not track the key yet, and four calls for the
  key at times \<open>t1 \<le> t2 \<le> t3 \<le> t4\<close> less than 1000 ms apart. The first three are
  admitted and the fourth is rejected with status 429 and \<^verbatim>\<open>retryAfter = 1\<close>, which
  is \<^verbatim>\<open>Math.ceil(1000 / 1000)\<close>. A fifth call at a time \<open>t5\<close> that is 1000 ms or
  more after the first call (as it is once the window has elapsed after the four calls)
  is admitted again.
\<close>

theorem limiter_three_per_window:
  assumes "distinct (map fst st)" and "Map_get st k = None"
    and "rate_key r1 = k" and "rate_key r2 = k" and "rate_key r3 = k" and "rate_key r4 = k"
    and "rate_key r5 = k"
    and "t1 \<le> t2" and "t2 \<le> t3" and "t3 \<le> t4" and "t4 < t1 + 1000" and "t1 + 1000 \<le> t5"
  shows "\<exists>s1 s2 s3 s4 s5 resp.
     createApiKeyRateLimit 1000 3 st t1 r1 = (s1, Next r1) \<and>
     createApiKeyRateLimit 1000 3 s1 t2 r2 = (s2, Next r2) \<and>
     createApiKeyRateLimit 1000 3 s2 t3 r3 = (s3, Next r3) \<and>
     createApiKeyRateLimit 1000 3 s3 t4 r4 = (s4, Respond resp) \<and>
     status resp = 429 \<and> retryAfter resp = Some 1 \<and> ceil_seconds 1000 = 1 \<and>
     createApiKeyRateLimit 1000 3 s4 t5 r5 = (s5, Next r5)"
proof -
  define s1 where "s1 = Map_set k ([] @ [t1]) (cleanup (t1 - 1000) st st)"
  define s2 where "s2 = Map_set k ([t1] @ [t2]) (cleanup (t2 - 1000) s1 s1)"
  define s3 where "s3 = Map_set k ([t1, t2] @ [t3]) (cleanup (t3 - 1000) s2 s2)"
  define s4 where "s4 = cleanup (t4 - 1000) s3 s3"
  define cur where "cur = recent (t5 - 1000) s4 k"
  define s5 where "s5 = Map_set k (cur @ [t5]) (cleanup (t5 - 1000) s4 s4)"
  have r0: "recent (t1 - 1000) st k = []"
    using assms(2) by (simp add: recent_def)
  have c1: "createApiKeyRateLimit 1000 3 st t1 r1 = (s1, Next r1)"
    using limiter_admits[OF assms(1) assms(3), of t1 1000 3] by (simp add: r0 s1_def)
  have d1: "distinct (map fst s1)"
    using assms(1) by (simp add: s1_def distinct_Map_set cleanup_distinct)
  have r1: "recent (t2 - 1000) s1 k = [t1]"
    using assms(8-11) by (simp add: s1_def recent_Map_set)
  have c2: "createApiKeyRateLimit 1000 3 s1 t2 r2 = (s2, Next r2)"
    using limiter_admits[OF d1 assms(4), of t2 1000 3] by (simp add: r1 s2_def)
  have d2: "distinct (map fst s2)"
    using d1 by (simp add: s2_def distinct_Map_set cleanup_distinct)
  have r2: "recent (t3 - 1000) s2 k = [t1, t2]"
    using assms(8-11) by (simp add: s2_def recent_Map_set)
  have c3: "createApiKeyRateLimit 1000 3 s2 t3 r3 = (s3, Next r3)"
    using limiter_admits[OF d2 assms(5), of t3 1000 3] by (simp add: r2 s3_def)
  have d3: "distinct (map fst s3)"
    using d2 by (simp add: s3_def distinct_Map_set cleanup_distinct)
  have r3: "recent (t4 - 1000) s3 k = [t1, t2, t3]"
    using assms(8-11) by (simp add: s3_def recent_Map_set)
  have c4: "createApiKeyRateLimit 1000 3 s3 t4 r4 = (s4, Respond (rate_limit_exceeded 1000 3))"
    using limiter_rejects[OF d3 assms(6), of 3 t4 1000] by (simp add: r3 s4_def)
  have d4: "distinct (map fst s4)"
    using d3 by (simp add: s4_def cleanup_distinct)
  have "cur = filter (\<lambda>t. t > t5 - 1000) [t1, t2, t3]"
    by (simp add: cur_def s4_def recent_cleanup[OF d3] r3)
  also have "\<dots> = filter (\<lambda>t. t > t5 - 1000) [t2, t3]"
    using assms(12) by simp
  finally have "length cur \<le> 2"
    by (simp split: if_splits)
  then have lt: "int (length (recent (t5 - 1000) s4 k)) < 3"
    by (simp add: cur_def)
  have c5: "createApiKeyRateLimit 1000 3 s4 t5 r5 = (s5, Next r5)"
    using limiter_admits[OF d4 assms(7) lt] by (simp add: s5_def cur_def)
  have resp: "status (rate_limit_exceeded 1000 3) = 429"
    "retryAfter (rate_limit_exceeded 1000 3) = Some 1" "ceil_seconds 1000 = 1"
    by (simp_all add: rate_limit_exceeded_def ceil_seconds_def)
  show ?thesis using c1 c2 c3 c4 c5 resp by blast
qed

text \<open>The theorem for a new limiter and calls at times 0, 100, 200, 300 and 1300.\<close>

theorem limiter_three_per_window_witness:
  "distinct (map fst new_requests) \<and> Map_get new_requests ''127.0.0.1'' = None \<and>
   rate_key empty_request = ''127.0.0.1'' \<and>
   (0::int) \<le> 100 \<and> (100::int) \<le> 200 \<and> (200::int) \<le> 300 \<and> (300::int) < 0 + 1000 \<and>
   (0::int) + 1000 \<le> 1300 \<and>
   (\<exists>s1 s2 s3 s4 s5 resp.
     createApiKeyRateLimit 1000 3 new_requests 0 empty_request = (s1, Next empty_request) \<and>
     createApiKeyRateLimit 1000 3 s1 100 empty_request = (s2, Next empty_request) \<and>
     createApiKeyRateLimit 1000 3 s2 200 empty_request = (s3, Next empty_request) \<and>
     createApiKeyRateLimit 1000 3 s3 300 empty_request = (s4, Respond resp) \<and>
     status resp = 429 \<and> retryAfter resp = Some 1 \<and> ceil_seconds 1000 = 1 \<and>
     createApiKeyRateLimit 1000 3 s4 1300 empty_request = (s5, Next empty_request))"
proof -
  have d: "distinct (map fst new_requests)" by (simp add: new_requests_def)
  have g: "Map_get new_requests ''127.0.0.1'' = None" by (simp add: Map_get_def new_requests_def)
  have k: "rate_key empty_request = ''127.0.0.1''" by (simp add: rate_key_def empty_request_def)
  have t: "(0::int) \<le> 100" "(100::int) \<le> 200" "(200::int) \<le> 300" "(300::int) < 0 + 1000"
    "(0::int) + 1000 \<le> 1300" by simp_all
  show ?thesis
    using d g k t limiter_three_per_window[OF d g k k k k k t]
    by simp
qed

end
